theory Spec2Isabelle
  imports Main "HOL-Library.Word" "HOL-Library.AList"
begin

section \<open>CachedFileStat: throttled, LRU-bounded stat() cache\<close>

text \<open>
  Shallow embedding of \<^verbatim>\<open>ext/common/Utils/CachedFileStat.hpp\<close>.

  Machine types: \<^verbatim>\<open>unsigned int\<close> is a 32-bit word; \<^verbatim>\<open>time_t\<close> is a 64-bit word read
  as signed (only the low 32 bits of a difference of two \<^verbatim>\<open>time_t\<close> values reach the
  comparison in \<^verbatim>\<open>expired\<close>, so a 32-bit \<^verbatim>\<open>time_t\<close> gives the same results);
  \<^verbatim>\<open>int\<close> values that are only stored and returned (\<^verbatim>\<open>last_result\<close>, \<^verbatim>\<open>errno\<close>) are
  mathematical integers. \<^verbatim>\<open>struct stat\<close> is a system type: it is the type parameter
  \<open>'st\<close>, whose \<open>0\<close> is the record filled by \<^verbatim>\<open>memset(&info, 0, sizeof(struct stat))\<close>.
\<close>

type_synonym time_t = "64 word"
type_synonym uint = "32 word"

subsection \<open>The system below the cache\<close>

text \<open>The two exceptions the header documents (\<^verbatim>\<open>@throws\<close>).\<close>

datatype exn = TimeRetrievalException | thread_interrupted

text \<open>
  What one call of \<^verbatim>\<open>oxt::syscalls::stat(path, &buf)\<close> does: it returns 0 and fills the
  buffer, or it returns -1 and sets \<^verbatim>\<open>errno\<close>, leaving the buffer as it was (stat(2) fills
  the buffer on success only), or the oxt wrapper raises \<^verbatim>\<open>boost::thread_interrupted\<close>,
  the buffer again as it was. The integer of \<open>stat_ok\<close> is the value \<^verbatim>\<open>errno\<close> holds after
  the successful call (a successful call need not preserve it).
\<close>

datatype 'st stat_reply = stat_ok 'st int | stat_failed int | stat_interrupted

text \<open>
  The system as one call of the cache sees it: what \<^verbatim>\<open>SystemTime::get()\<close> answers, and
  what \<^verbatim>\<open>syscalls::stat\<close> answers for each path. Each operation of the cache reads the
  clock once and calls stat at most once.
\<close>

record 'st sys =
  SystemTime_get :: "exn + time_t"
  syscalls_stat :: "string \<Rightarrow> 'st stat_reply"

text \<open>
  The thread's \<^verbatim>\<open>errno\<close>, and the trace of the paths handed to \<^verbatim>\<open>syscalls::stat\<close>: the
  trace is how a real query is observed.
\<close>

record world =
  errno :: int
  stat_log :: "string list"

text \<open>A file system that answers every path alike.\<close>

definition all_paths :: "'st stat_reply \<Rightarrow> string \<Rightarrow> 'st stat_reply" where
  "all_paths r p = r"

subsection \<open>Entry\<close>

record 'st Entry =
  last_result :: int
  last_errno :: int
  last_time :: time_t
  info :: 'st
  filename :: string

text \<open>\<^verbatim>\<open>bool expired(time_t begin, unsigned int interval, time_t &currentTime)\<close>: the
  result is the flag together with the time read.\<close>

definition expired :: "'st sys \<Rightarrow> time_t \<Rightarrow> uint \<Rightarrow> exn + (bool \<times> time_t)" where
  "expired s begin interval =
     (case SystemTime_get s of
        Inl x \<Rightarrow> Inl x
      | Inr currentTime \<Rightarrow> Inr (interval \<le> (ucast (currentTime - begin) :: uint), currentTime))"

text \<open>\<^verbatim>\<open>Entry(const string &_filename)\<close>.\<close>

definition new_Entry :: "string \<Rightarrow> ('st::zero) Entry" where
  "new_Entry fname =
     \<lparr>last_result = - 1, last_errno = 0, last_time = 0, info = 0, filename = fname\<rparr>"

text \<open>
  \<^verbatim>\<open>int refresh(unsigned int throttleRate)\<close>. The result is the exception or the value
  returned, the entry afterwards and the world afterwards. When an exception leaves the
  function, no assignment of the entry has run.
\<close>

definition refresh ::
  "'st sys \<Rightarrow> uint \<Rightarrow> 'st Entry \<Rightarrow> world \<Rightarrow> (exn + int) \<times> 'st Entry \<times> world" where
  "refresh s throttleRate e w =
     (case expired s (last_time e) throttleRate of
        Inl x \<Rightarrow> (Inl x, e, w)
      | Inr (True, currentTime) \<Rightarrow>
          (let w1 = w\<lparr>stat_log := stat_log w @ [filename e]\<rparr> in
           case syscalls_stat s (filename e) of
             stat_interrupted \<Rightarrow> (Inl thread_interrupted, e, w1)
           | stat_ok st en \<Rightarrow>
               (Inr 0,
                e\<lparr>info := st, last_result := 0, last_errno := en, last_time := currentTime\<rparr>,
                w1\<lparr>errno := en\<rparr>)
           | stat_failed en \<Rightarrow>
               (Inr (- 1),
                e\<lparr>last_result := - 1, last_errno := en, last_time := currentTime\<rparr>,
                w1\<lparr>errno := en\<rparr>))
      | Inr (False, currentTime) \<Rightarrow> (Inr (last_result e), e, w\<lparr>errno := last_errno e\<rparr>))"

subsection \<open>The containers of the cache\<close>

text \<open>
  \<^verbatim>\<open>EntryList\<close> is \<^verbatim>\<open>std::list<shared_ptr<Entry>>\<close>: a sequence of nodes, front first. A
  node keeps its address for as long as it is in the list, whatever happens to the other
  nodes, and an iterator is the address of a node, the past-the-end position
  \<^verbatim>\<open>entries.end()\<close>, or the value-initialised \<^verbatim>\<open>EntryList::iterator()\<close>. Each entry is
  owned by exactly one node, so the node carries the entry itself.
\<close>

datatype iterator = singular | past_the_end | node nat

type_synonym 'st EntryList = "(nat \<times> 'st Entry) list"

definition list_begin :: "'st EntryList \<Rightarrow> iterator" where
  "list_begin l = (case l of [] \<Rightarrow> past_the_end | n # _ \<Rightarrow> node (fst n))"

text \<open>The allocator hands out an address that no node of the list has.\<close>

definition new_node :: "'st EntryList \<Rightarrow> nat" where
  "new_node l = Suc (fold max (map fst l) 0)"

definition push_front :: "'st Entry \<Rightarrow> 'st EntryList \<Rightarrow> 'st EntryList" where
  "push_front e l = (new_node l, e) # l"

text \<open>
  \<^verbatim>\<open>entries.splice(entries.begin(), entries, it)\<close> after \<^verbatim>\<open>entry = *it\<close>: the node moves to
  the front and keeps its address. Dereferencing an iterator that is no node of the list is
  undefined behaviour: \<open>None\<close>.
\<close>

definition splice_begin :: "'st EntryList \<Rightarrow> iterator \<Rightarrow> 'st EntryList option" where
  "splice_begin l it =
     (case it of
        node a \<Rightarrow>
          (case find (\<lambda>n. fst n = a) l of
             None \<Rightarrow> None
           | Some n \<Rightarrow> Some (n # remove1 n l))
      | _ \<Rightarrow> None)"

text \<open>
  Modelled from the spec: \<^verbatim>\<open>StringMap\<close> (\<^verbatim>\<open>Utils/StringMap.h\<close>) is not among the sources;
  the spec describes it as the path-keyed associative lookup with get, set and remove
  backing the index, keys unique. It is an association list here: \<open>get\<close> with a default,
  \<open>set\<close> overwriting the value of a key that is present, \<open>remove\<close>, and \<open>size\<close>, the number
  of keys.
\<close>

type_synonym EntryMap = "(string \<times> iterator) list"

definition StringMap_get :: "EntryMap \<Rightarrow> string \<Rightarrow> iterator \<Rightarrow> iterator" where
  "StringMap_get m k d = (case map_of m k of None \<Rightarrow> d | Some v \<Rightarrow> v)"

definition StringMap_set :: "string \<Rightarrow> iterator \<Rightarrow> EntryMap \<Rightarrow> EntryMap" where
  "StringMap_set k v m = AList.update k v m"

definition StringMap_remove :: "string \<Rightarrow> EntryMap \<Rightarrow> EntryMap" where
  "StringMap_remove k m = AList.delete k m"

definition StringMap_size :: "EntryMap \<Rightarrow> nat" where
  "StringMap_size m = length m"

subsection \<open>CachedFileStat\<close>

text \<open>The mutex is not modelled: every operation holds it from its first to its last
  statement, so operations are atomic steps on the state.\<close>

record 'st CachedFileStat =
  maxSize :: uint
  entries :: "'st EntryList"
  cache :: EntryMap

text \<open>\<^verbatim>\<open>CachedFileStat(unsigned int maxSize = 0)\<close>.\<close>

definition new_CachedFileStat :: "uint \<Rightarrow> 'st CachedFileStat" where
  "new_CachedFileStat n = \<lparr>maxSize = n, entries = [], cache = []\<rparr>"

text \<open>
  The three statements that \<^verbatim>\<open>stat\<close> (lines 175-179) and \<^verbatim>\<open>setMaxSize\<close> (lines 211-213)
  share: read the file name of the last node, \<^verbatim>\<open>entries.pop_back()\<close>,
  \<^verbatim>\<open>cache.remove(filename)\<close>. On an empty list this is undefined behaviour: \<open>None\<close>.
\<close>

definition evict_back :: "'st CachedFileStat \<Rightarrow> 'st CachedFileStat option" where
  "evict_back c =
     (case entries c of
        [] \<Rightarrow> None
      | _ # _ \<Rightarrow>
          Some (c\<lparr>entries := butlast (entries c),
                  cache := StringMap_remove (filename (snd (last (entries c)))) (cache c)\<rparr>))"

text \<open>
  Sizes are natural numbers, so \<^verbatim>\<open>cache.size() == maxSize\<close> compares the number of keys with
  the value of \<^verbatim>\<open>maxSize\<close>.

  Lines 166-193 of \<^verbatim>\<open>stat\<close>: look the file name up; on a miss evict the last node if the
  cache is full and push a new entry at the front; on a hit splice the node to the front;
  in both cases store \<^verbatim>\<open>entries.begin()\<close> in the map. Afterwards \<^verbatim>\<open>entry\<close> is the entry
  of the first node.
\<close>

definition stat_lookup :: "string \<Rightarrow> ('st::zero) CachedFileStat \<Rightarrow> 'st CachedFileStat option" where
  "stat_lookup fname c =
     (let it = StringMap_get (cache c) fname past_the_end in
      if it = past_the_end then
        (case (if maxSize c \<noteq> 0 \<and> StringMap_size (cache c) = unat (maxSize c)
               then evict_back c else Some c) of
           None \<Rightarrow> None
         | Some c1 \<Rightarrow>
             (let l = push_front (new_Entry fname) (entries c1) in
              Some (c1\<lparr>entries := l, cache := StringMap_set fname (list_begin l) (cache c1)\<rparr>)))
      else
        (case splice_begin (entries c) it of
           None \<Rightarrow> None
         | Some l \<Rightarrow>
             Some (c\<lparr>entries := l, cache := StringMap_set fname (list_begin l) (cache c)\<rparr>)))"

text \<open>
  \<^verbatim>\<open>int stat(const StaticString &filename, struct stat *buf, unsigned int throttleRate)\<close>.
  \<open>None\<close> is undefined behaviour. Otherwise the result is the exception that left the
  function, or the value returned together with the record copied to \<^verbatim>\<open>*buf\<close>, and the
  cache and the world as the call leaves them: what lines 166-193 did to the cache stays
  done when \<^verbatim>\<open>refresh\<close> throws. (After lines 166-193 the list has a first node on both
  paths, so the case of the empty list below is never taken.)
\<close>

definition stat ::
  "'st sys \<Rightarrow> string \<Rightarrow> uint \<Rightarrow> ('st::zero) CachedFileStat \<Rightarrow> world \<Rightarrow>
     ((exn + int \<times> 'st) \<times> 'st CachedFileStat \<times> world) option" where
  "stat s fname throttleRate c w =
     (case stat_lookup fname c of
        None \<Rightarrow> None
      | Some c1 \<Rightarrow>
          (case entries c1 of
             [] \<Rightarrow> None
           | (a, entry) # rest \<Rightarrow>
               (case refresh s throttleRate entry w of
                  (Inl x, entry', w') \<Rightarrow>
                    Some (Inl x, c1\<lparr>entries := (a, entry') # rest\<rparr>, w')
                | (Inr ret, entry', w') \<Rightarrow>
                    Some (Inr (ret, info entry'), c1\<lparr>entries := (a, entry') # rest\<rparr>, w'))))"

text \<open>The loop of \<^verbatim>\<open>setMaxSize\<close>, run \<open>k\<close> times.\<close>

fun evict_loop :: "nat \<Rightarrow> 'st CachedFileStat \<Rightarrow> 'st CachedFileStat option" where
  "evict_loop 0 c = Some c"
| "evict_loop (Suc k) c =
     (case evict_back c of None \<Rightarrow> None | Some c1 \<Rightarrow> evict_loop k c1)"

text \<open>
  \<^verbatim>\<open>void setMaxSize(unsigned int maxSize)\<close>. \<^verbatim>\<open>int toRemove = cache.size() - maxSize\<close> is
  an unsigned subtraction converted to \<^verbatim>\<open>int\<close>: the difference modulo \<open>2^32\<close>, read as
  two's complement. The loop \<^verbatim>\<open>for (int i = 0; i < toRemove; i++)\<close> runs \<open>toRemove\<close> times,
  and not at all when \<open>toRemove\<close> is negative.
\<close>

definition setMaxSize :: "uint \<Rightarrow> 'st CachedFileStat \<Rightarrow> 'st CachedFileStat option" where
  "setMaxSize n c =
     (if n \<noteq> 0 then
        (let toRemove = sint (word_of_nat (StringMap_size (cache c)) - n :: uint) in
         case evict_loop (nat toRemove) c of
           None \<Rightarrow> None
         | Some c1 \<Rightarrow> Some (c1\<lparr>maxSize := n\<rparr>))
      else Some (c\<lparr>maxSize := n\<rparr>))"

text \<open>\<^verbatim>\<open>bool knows(const StaticString &filename)\<close>.\<close>

definition knows :: "'st CachedFileStat \<Rightarrow> string \<Rightarrow> bool" where
  "knows c fname \<longleftrightarrow> StringMap_get (cache c) fname singular \<noteq> singular"

subsection \<open>Sequences of calls\<close>

text \<open>A caller issuing one \<^verbatim>\<open>stat\<close> after the other, each against the system as it is at
  that moment, and going on whatever a call returns or throws.\<close>

fun stat_all ::
  "('st sys \<times> string \<times> uint) list \<Rightarrow> ('st::zero) CachedFileStat \<Rightarrow> world \<Rightarrow>
     ('st CachedFileStat \<times> world) option" where
  "stat_all [] c w = Some (c, w)"
| "stat_all ((s, fname, t) # cs) c w =
     (case stat s fname t c w of
        None \<Rightarrow> None
      | Some (r, c1, w1) \<Rightarrow> stat_all cs c1 w1)"

datatype 'st call = Stat "'st sys" string uint | SetMaxSize uint

fun run :: "'st call list \<Rightarrow> ('st::zero) CachedFileStat \<Rightarrow> world \<Rightarrow>
     ('st CachedFileStat \<times> world) option" where
  "run [] c w = Some (c, w)"
| "run (Stat s fname t # cs) c w =
     (case stat s fname t c w of
        None \<Rightarrow> None
      | Some (r, c1, w1) \<Rightarrow> run cs c1 w1)"
| "run (SetMaxSize n # cs) c w =
     (case setMaxSize n c of
        None \<Rightarrow> None
      | Some c1 \<Rightarrow> run cs c1 w)"

subsection \<open>The invariant of the cache and its recency order\<close>

text \<open>The file names of the cached entries, most recently used first.\<close>

definition paths :: "'st CachedFileStat \<Rightarrow> string list" where
  "paths c = map (\<lambda>n. filename (snd n)) (entries c)"

text \<open>The map that indexes a list of nodes: each file name with the address of its node.\<close>

definition index_of :: "'st EntryList \<Rightarrow> EntryMap" where
  "index_of l = map (\<lambda>n. (filename (snd n), node (fst n))) l"

text \<open>
  List and map are consistent: node addresses and file names are unique in the list, keys
  are unique in the map, the map holds exactly the index of the list, and a bounded cache
  holds no more entries than its bound.
\<close>

definition cache_inv :: "'st CachedFileStat \<Rightarrow> bool" where
  "cache_inv c \<longleftrightarrow>
     distinct (map fst (entries c)) \<and> distinct (paths c) \<and> distinct (map fst (cache c)) \<and>
     set (cache c) = set (index_of (entries c)) \<and>
     (maxSize c \<noteq> 0 \<longrightarrow> length (entries c) \<le> unat (maxSize c))"

text \<open>
  The recency order as the spec words it, on file names alone: a hit moves the path to the
  front; a miss at capacity drops the last path; a miss puts the path at the front.
\<close>

definition lru_query :: "nat \<Rightarrow> string \<Rightarrow> string list \<Rightarrow> string list" where
  "lru_query C p ps =
     (if p \<in> set ps then p # remove1 p ps
      else if C \<noteq> 0 \<and> length ps = C then p # butlast ps
      else p # ps)"

subsection \<open>Example systems and caches\<close>

text \<open>The concrete inputs on which the theorems below are exercised: a system whose clock
  answers \<open>now\<close> and whose file system answers every path with \<open>r\<close>, a system whose clock
  fails, a world, and a cache of capacity 2 holding \<^verbatim>\<open>/b\<close> (most recent) and \<^verbatim>\<open>/a\<close>.\<close>

abbreviation sys_at :: "time_t \<Rightarrow> nat stat_reply \<Rightarrow> nat sys" where
  "sys_at now r \<equiv> \<lparr>SystemTime_get = Inr now, syscalls_stat = all_paths r\<rparr>"

abbreviation sys_no_clock :: "nat sys" where
  "sys_no_clock \<equiv>
     \<lparr>SystemTime_get = Inl TimeRetrievalException, syscalls_stat = all_paths (stat_ok 7 0)\<rparr>"

abbreviation world0 :: world where
  "world0 \<equiv> \<lparr>errno = 0, stat_log = []\<rparr>"

abbreviation entry_a :: "nat Entry" where
  "entry_a \<equiv> \<lparr>last_result = 0, last_errno = 0, last_time = 1000, info = 7, filename = ''/a''\<rparr>"

abbreviation entry_b :: "nat Entry" where
  "entry_b \<equiv> \<lparr>last_result = 0, last_errno = 0, last_time = 1001, info = 8, filename = ''/b''\<rparr>"

abbreviation cache_ab :: "nat CachedFileStat" where
  "cache_ab \<equiv>
     \<lparr>maxSize = 2, entries = [(2, entry_b), (1, entry_a)],
      cache = [(''/a'', node 1), (''/b'', node 2)]\<rparr>"

section \<open>Entry: throttling\<close>

text \<open>The elapsed time that \<^verbatim>\<open>expired\<close> compares: the difference of the two times modulo
  \<open>2^32\<close>.\<close>

lemma uint_elapsed:
  "uint (ucast ((now::time_t) - b) :: uint) = (sint now - sint b) mod 2 ^ 32"
proof -
  have "uint (ucast (now - b) :: uint) = take_bit 32 (uint (now - b))"
    by (simp add: unsigned_ucast_eq)
  also have "\<dots> = take_bit 32 (take_bit 64 (uint now - uint b))"
    by (simp add: uint_word_arith_bintrs)
  also have "\<dots> = take_bit 32 (take_bit 64 (take_bit 64 (sint now) - take_bit 64 (sint b)))"
    by (simp add: uint_sint)
  also have "\<dots> = take_bit 32 (take_bit 64 (sint now - sint b))"
    by (simp only: take_bit_diff)
  also have "\<dots> = take_bit 32 (sint now - sint b)"
    by simp
  finally show ?thesis by (simp add: take_bit_eq_mod)
qed

lemma refresh_clock_ok:
  "SystemTime_get s = Inr now \<Longrightarrow>
   refresh s t e w =
     (if t \<le> ucast (now - last_time e) then
        (case syscalls_stat s (filename e) of
           stat_interrupted \<Rightarrow>
             (Inl thread_interrupted, e, w\<lparr>stat_log := stat_log w @ [filename e]\<rparr>)
         | stat_ok st en \<Rightarrow>
             (Inr 0, e\<lparr>info := st, last_result := 0, last_errno := en, last_time := now\<rparr>,
              w\<lparr>stat_log := stat_log w @ [filename e], errno := en\<rparr>)
         | stat_failed en \<Rightarrow>
             (Inr (- 1), e\<lparr>last_result := - 1, last_errno := en, last_time := now\<rparr>,
              w\<lparr>stat_log := stat_log w @ [filename e], errno := en\<rparr>))
      else (Inr (last_result e), e, w\<lparr>errno := last_errno e\<rparr>))"
  by (simp add: refresh_def expired_def Let_def split: stat_reply.splits)

lemma refresh_clock_failed:
  "SystemTime_get s = Inl x \<Longrightarrow> refresh s t e w = (Inl x, e, w)"
  by (simp add: refresh_def expired_def)

lemma refresh_returns_recorded:
  "refresh s t e w = (Inr r, e1, w1) \<Longrightarrow>
     r = last_result e1 \<and> errno w1 = last_errno e1 \<and> filename e1 = filename e"
  by (cases "SystemTime_get s")
     (auto simp: refresh_clock_ok refresh_clock_failed split: if_splits stat_reply.splits)

lemma refresh_log:
  "SystemTime_get s = Inr now \<Longrightarrow>
   stat_log (snd (snd (refresh s t e w))) =
     (if t \<le> ucast (now - last_time e) then stat_log w @ [filename e] else stat_log w)"
  by (simp add: refresh_clock_ok split: stat_reply.splits)

text \<open>
  Claim C2. When a refresh is triggered and the metadata query fails, the snapshot \<open>info\<close>
  keeps its value: only \<open>last_result\<close> (now -1), \<open>last_errno\<close> (the error code) and
  \<open>last_time\<close> change, and the new \<open>last_time\<close> is the time that the expiry check read.
\<close>

theorem refresh_failed_query_keeps_snapshot:
  assumes "SystemTime_get s = Inr now"
    and "throttleRate \<le> ucast (now - last_time e)"
    and "syscalls_stat s (filename e) = stat_failed code"
  shows "refresh s throttleRate e w =
           (Inr (- 1), e\<lparr>last_result := - 1, last_errno := code, last_time := now\<rparr>,
            w\<lparr>stat_log := stat_log w @ [filename e], errno := code\<rparr>)
         \<and> info (fst (snd (refresh s throttleRate e w))) = info e"
  using assms by (simp add: refresh_clock_ok)

theorem refresh_failed_query_keeps_snapshot_witness:
  "SystemTime_get (sys_at 100 (stat_failed 2)) = Inr 100
   \<and> (5 :: uint) \<le> ucast (100 - last_time
         \<lparr>last_result = 0, last_errno = 0, last_time = 90, info = (7::nat), filename = ''/a''\<rparr>)
   \<and> refresh (sys_at 100 (stat_failed 2)) 5
       \<lparr>last_result = 0, last_errno = 0, last_time = 90, info = (7::nat), filename = ''/a''\<rparr>
       world0
     = (Inr (- 1),
        \<lparr>last_result = - 1, last_errno = 2, last_time = 100, info = 7, filename = ''/a''\<rparr>,
        \<lparr>errno = 2, stat_log = [''/a'']\<rparr>)"
  using refresh_failed_query_keeps_snapshot
    [of "sys_at 100 (stat_failed 2)" 100 5
        "\<lparr>last_result = 0, last_errno = 0, last_time = 90, info = (7::nat), filename = ''/a''\<rparr>" 2
        world0]
  by (simp add: all_paths_def)

text \<open>
  Claim C3. With the clock answering \<open>now\<close>, \<open>refresh\<close> calls stat exactly when the
  unsigned difference of \<open>now\<close> and \<open>last_time\<close> is at least the throttle rate, and then
  exactly once; the first conjunct gives the whole result of the call in both cases. A call
  that comes less than \<open>t\<close> seconds after the real query of an earlier call (second
  conjunct), or more generally after the entry's \<open>last_time\<close> (third conjunct), from
  whatever world \<open>w2\<close> the thread is in by then, calls stat not at all, leaves the entry as
  it is and returns what the earlier call returned: the same value, the same \<open>info\<close>, and
  \<open>errno\<close> set to the value the earlier call left. A throttle rate of 0 makes every call
  query.
\<close>

theorem refresh_throttle:
  "(SystemTime_get s = Inr now \<longrightarrow>
      refresh s t e w =
        (if t \<le> ucast (now - last_time e) then
           (case syscalls_stat s (filename e) of
              stat_interrupted \<Rightarrow>
                (Inl thread_interrupted, e, w\<lparr>stat_log := stat_log w @ [filename e]\<rparr>)
            | stat_ok st en \<Rightarrow>
                (Inr 0, e\<lparr>info := st, last_result := 0, last_errno := en, last_time := now\<rparr>,
                 w\<lparr>stat_log := stat_log w @ [filename e], errno := en\<rparr>)
            | stat_failed en \<Rightarrow>
                (Inr (- 1), e\<lparr>last_result := - 1, last_errno := en, last_time := now\<rparr>,
                 w\<lparr>stat_log := stat_log w @ [filename e], errno := en\<rparr>))
         else (Inr (last_result e), e, w\<lparr>errno := last_errno e\<rparr>)) \<and>
      stat_log (snd (snd (refresh s t e w))) =
        (if t \<le> ucast (now - last_time e) then stat_log w @ [filename e] else stat_log w))
   \<and> (refresh s1 t1 e w = (Inr r1, e1, w1) \<and> SystemTime_get s1 = Inr now1
        \<and> t1 \<le> ucast (now1 - last_time e)
        \<and> SystemTime_get s2 = Inr now2 \<and> (ucast (now2 - now1) :: uint) < t
      \<longrightarrow> refresh s2 t e1 w2 = (Inr r1, e1, w2\<lparr>errno := errno w1\<rparr>))
   \<and> (refresh s1 t1 e w = (Inr r1, e1, w1)
        \<and> SystemTime_get s2 = Inr now2 \<and> (ucast (now2 - last_time e1) :: uint) < t
      \<longrightarrow> refresh s2 t e1 w2 = (Inr r1, e1, w2\<lparr>errno := errno w1\<rparr>))
   \<and> (SystemTime_get s = Inr now \<longrightarrow>
        stat_log (snd (snd (refresh s 0 e w))) = stat_log w @ [filename e])"
proof (intro conjI impI)
  assume "SystemTime_get s = Inr now"
  then show "refresh s t e w =
        (if t \<le> ucast (now - last_time e) then
           (case syscalls_stat s (filename e) of
              stat_interrupted \<Rightarrow>
                (Inl thread_interrupted, e, w\<lparr>stat_log := stat_log w @ [filename e]\<rparr>)
            | stat_ok st en \<Rightarrow>
                (Inr 0, e\<lparr>info := st, last_result := 0, last_errno := en, last_time := now\<rparr>,
                 w\<lparr>stat_log := stat_log w @ [filename e], errno := en\<rparr>)
            | stat_failed en \<Rightarrow>
                (Inr (- 1), e\<lparr>last_result := - 1, last_errno := en, last_time := now\<rparr>,
                 w\<lparr>stat_log := stat_log w @ [filename e], errno := en\<rparr>))
         else (Inr (last_result e), e, w\<lparr>errno := last_errno e\<rparr>))"
    by (rule refresh_clock_ok)
next
  assume "SystemTime_get s = Inr now"
  then show "stat_log (snd (snd (refresh s t e w))) =
        (if t \<le> ucast (now - last_time e) then stat_log w @ [filename e] else stat_log w)"
    by (rule refresh_log)
next
  assume a: "refresh s1 t1 e w = (Inr r1, e1, w1) \<and> SystemTime_get s2 = Inr now2
     \<and> (ucast (now2 - last_time e1) :: uint) < t"
  then have "r1 = last_result e1 \<and> errno w1 = last_errno e1"
    using refresh_returns_recorded by blast
  with a show "refresh s2 t e1 w2 = (Inr r1, e1, w2\<lparr>errno := errno w1\<rparr>)"
    by (simp add: refresh_clock_ok not_le [symmetric])
next
  assume a: "refresh s1 t1 e w = (Inr r1, e1, w1) \<and> SystemTime_get s1 = Inr now1
        \<and> t1 \<le> ucast (now1 - last_time e)
        \<and> SystemTime_get s2 = Inr now2 \<and> (ucast (now2 - now1) :: uint) < t"
  then have r: "r1 = last_result e1 \<and> errno w1 = last_errno e1"
    using refresh_returns_recorded by blast
  from a have "last_time e1 = now1"
    by (auto simp: refresh_clock_ok split: stat_reply.splits)
  with a r show "refresh s2 t e1 w2 = (Inr r1, e1, w2\<lparr>errno := errno w1\<rparr>)"
    by (simp add: refresh_clock_ok not_le [symmetric])
next
  assume "SystemTime_get s = Inr now"
  then show "stat_log (snd (snd (refresh s 0 e w))) = stat_log w @ [filename e]"
    by (simp add: refresh_log)
qed

theorem refresh_throttle_witness:
  "refresh (sys_at 100 (stat_failed 2)) 5
       \<lparr>last_result = 0, last_errno = 0, last_time = 90, info = (3::nat), filename = ''/a''\<rparr>
       world0
     = (Inr (- 1),
        \<lparr>last_result = - 1, last_errno = 2, last_time = 100, info = 3, filename = ''/a''\<rparr>,
        \<lparr>errno = 2, stat_log = [''/a'']\<rparr>)
   \<and> (5 :: uint) \<le> ucast ((100 :: time_t) - 90)
   \<and> (ucast ((103 :: time_t) - 100) :: uint) < 5
   \<and> refresh (sys_at 103 (stat_ok 7 0)) 5
       \<lparr>last_result = - 1, last_errno = 2, last_time = 100, info = (3::nat), filename = ''/a''\<rparr>
       \<lparr>errno = 99, stat_log = [''/a'', ''/b'']\<rparr>
     = (Inr (- 1),
        \<lparr>last_result = - 1, last_errno = 2, last_time = 100, info = 3, filename = ''/a''\<rparr>,
        \<lparr>errno = 2, stat_log = [''/a'', ''/b'']\<rparr>)
   \<and> stat_log (snd (snd (refresh
         (sys_at 100 (stat_failed 2)) 0
         \<lparr>last_result = 0, last_errno = 0, last_time = 90, info = (3::nat), filename = ''/a''\<rparr>
         world0))) = [''/a'']"
  using refresh_throttle
    [where s = "sys_at 100 (stat_failed 2)" and now = 100 and t = 5
       and e = "\<lparr>last_result = 0, last_errno = 0, last_time = 90, info = (3::nat), filename = ''/a''\<rparr>"
       and w = world0 and ?s1.0 = "sys_at 100 (stat_failed 2)" and ?t1.0 = 5
       and ?r1.0 = "- 1"
       and ?e1.0 = "\<lparr>last_result = - 1, last_errno = 2, last_time = 100, info = 3, filename = ''/a''\<rparr>"
       and ?w1.0 = "\<lparr>errno = 2, stat_log = [''/a'']\<rparr>" and ?now1.0 = 100
       and ?s2.0 = "sys_at 103 (stat_ok 7 0)" and ?now2.0 = 103
       and ?w2.0 = "\<lparr>errno = 99, stat_log = [''/a'', ''/b'']\<rparr>"]
  by (simp add: refresh_def expired_def all_paths_def)

text \<open>
  Claim C8 fails as stated. An entry whose \<open>last_time\<close> is two seconds ahead of the clock,
  refreshed with throttle rate \<open>2^32 - 1\<close>: the elapsed time wraps to \<open>2^32 - 2\<close>, which is
  below the throttle rate, and no query is made.
\<close>

theorem refresh_backward_clock_counterexample:
  "sint (100 :: time_t) < sint (last_time
      \<lparr>last_result = 0, last_errno = 0, last_time = 102, info = (3::nat), filename = ''/a''\<rparr>)
   \<and> refresh (sys_at 100 (stat_ok 7 0)) 4294967295
        \<lparr>last_result = 0, last_errno = 0, last_time = 102, info = (3::nat), filename = ''/a''\<rparr>
        world0
      = (Inr 0,
         \<lparr>last_result = 0, last_errno = 0, last_time = 102, info = 3, filename = ''/a''\<rparr>,
         world0)"
  by (simp add: refresh_def expired_def)

text \<open>
  Claim C8, amended. When \<open>last_time\<close> is \<open>g\<close> seconds ahead of the clock, \<open>g > 0\<close>, the
  elapsed time wraps to \<open>(- g) mod 2^32\<close>, which is \<open>2^32 - g\<close> as long as \<open>g < 2^32\<close>.
  \<open>refresh\<close> queries exactly when the throttle rate is at most that value; with a larger
  throttle rate it makes no query, changes nothing of the entry and returns the recorded
  result with \<open>errno\<close> set to the recorded error code.
\<close>

theorem refresh_backward_clock:
  assumes "SystemTime_get s = Inr now"
    and "0 < g"
    and "sint (last_time e) = sint now + g"
  shows "refresh s t e w =
           (if uint t \<le> (- g) mod 2 ^ 32 then
              (case syscalls_stat s (filename e) of
                 stat_interrupted \<Rightarrow>
                   (Inl thread_interrupted, e, w\<lparr>stat_log := stat_log w @ [filename e]\<rparr>)
               | stat_ok st en \<Rightarrow>
                   (Inr 0, e\<lparr>info := st, last_result := 0, last_errno := en, last_time := now\<rparr>,
                    w\<lparr>stat_log := stat_log w @ [filename e], errno := en\<rparr>)
               | stat_failed en \<Rightarrow>
                   (Inr (- 1), e\<lparr>last_result := - 1, last_errno := en, last_time := now\<rparr>,
                    w\<lparr>stat_log := stat_log w @ [filename e], errno := en\<rparr>))
            else (Inr (last_result e), e, w\<lparr>errno := last_errno e\<rparr>))
         \<and> stat_log (snd (snd (refresh s t e w))) =
             (if uint t \<le> (- g) mod 2 ^ 32 then stat_log w @ [filename e] else stat_log w)
         \<and> (g < 2 ^ 32 \<longrightarrow> (- g) mod 2 ^ 32 = 2 ^ 32 - g)"
proof -
  have "(sint now - sint (last_time e)) mod 2 ^ 32 = (- g) mod 2 ^ 32"
    using assms(3) by simp
  then have "uint (ucast (now - last_time e) :: uint) = (- g) mod 2 ^ 32"
    by (simp add: uint_elapsed)
  then have trig: "t \<le> ucast (now - last_time e) \<longleftrightarrow> uint t \<le> (- g) mod 2 ^ 32"
    by (simp add: word_le_def)
  have small: "g < 2 ^ 32 \<longrightarrow> (- g) mod 2 ^ 32 = 2 ^ 32 - g"
    using assms(2) by (simp add: zmod_zminus1_eq_if)
  have res: "refresh s t e w =
           (if uint t \<le> (- g) mod 2 ^ 32 then
              (case syscalls_stat s (filename e) of
                 stat_interrupted \<Rightarrow>
                   (Inl thread_interrupted, e, w\<lparr>stat_log := stat_log w @ [filename e]\<rparr>)
               | stat_ok st en \<Rightarrow>
                   (Inr 0, e\<lparr>info := st, last_result := 0, last_errno := en, last_time := now\<rparr>,
                    w\<lparr>stat_log := stat_log w @ [filename e], errno := en\<rparr>)
               | stat_failed en \<Rightarrow>
                   (Inr (- 1), e\<lparr>last_result := - 1, last_errno := en, last_time := now\<rparr>,
                    w\<lparr>stat_log := stat_log w @ [filename e], errno := en\<rparr>))
            else (Inr (last_result e), e, w\<lparr>errno := last_errno e\<rparr>))"
    using assms(1) trig by (simp add: refresh_clock_ok)
  have log: "stat_log (snd (snd (refresh s t e w))) =
             (if uint t \<le> (- g) mod 2 ^ 32 then stat_log w @ [filename e] else stat_log w)"
    using assms(1) trig by (simp add: refresh_log)
  from res log small show ?thesis by (intro conjI)
qed

theorem refresh_backward_clock_witness:
  "(0::int) < 2 \<and> sint (102 :: time_t) = sint (100 :: time_t) + 2
   \<and> (- 2 :: int) mod 2 ^ 32 = 4294967294
   \<and> refresh (sys_at 100 (stat_ok 7 0)) 4294967294
        \<lparr>last_result = - 1, last_errno = 2, last_time = 102, info = (3::nat), filename = ''/a''\<rparr>
        world0
      = (Inr 0,
         \<lparr>last_result = 0, last_errno = 0, last_time = 100, info = 7, filename = ''/a''\<rparr>,
         \<lparr>errno = 0, stat_log = [''/a'']\<rparr>)
   \<and> refresh (sys_at 100 (stat_ok 7 0)) 4294967295
        \<lparr>last_result = - 1, last_errno = 2, last_time = 102, info = (3::nat), filename = ''/a''\<rparr>
        world0
      = (Inr (- 1),
         \<lparr>last_result = - 1, last_errno = 2, last_time = 102, info = 3, filename = ''/a''\<rparr>,
         \<lparr>errno = 2, stat_log = []\<rparr>)
   \<and> (0::int) < 4294967296 \<and> sint (4294967396 :: time_t) = sint (100 :: time_t) + 4294967296
   \<and> (- 4294967296 :: int) mod 2 ^ 32 = 0
   \<and> refresh (sys_at 100 (stat_ok 7 0)) 1
        \<lparr>last_result = - 1, last_errno = 2, last_time = 4294967396, info = (3::nat),
         filename = ''/a''\<rparr>
        world0
      = (Inr (- 1),
         \<lparr>last_result = - 1, last_errno = 2, last_time = 4294967396, info = 3, filename = ''/a''\<rparr>,
         \<lparr>errno = 2, stat_log = []\<rparr>)"
  using refresh_backward_clock
    [where s = "sys_at 100 (stat_ok 7 0)" and now = 100 and g = 2 and t = 4294967294 and w = world0
       and e = "\<lparr>last_result = - 1, last_errno = 2, last_time = 102, info = (3::nat), filename = ''/a''\<rparr>"]
    refresh_backward_clock
    [where s = "sys_at 100 (stat_ok 7 0)" and now = 100 and g = 2 and t = 4294967295 and w = world0
       and e = "\<lparr>last_result = - 1, last_errno = 2, last_time = 102, info = (3::nat), filename = ''/a''\<rparr>"]
    refresh_backward_clock
    [where s = "sys_at 100 (stat_ok 7 0)" and now = 100 and g = 4294967296 and t = 1 and w = world0
       and e = "\<lparr>last_result = - 1, last_errno = 2, last_time = 4294967396, info = (3::nat),
                 filename = ''/a''\<rparr>"]
  by (simp add: all_paths_def)

section \<open>The cache: list and map stay consistent\<close>

subsection \<open>Lists of nodes\<close>

lemma fold_max_ge: "(b::nat) \<le> fold max xs b"
  by (induction xs arbitrary: b) (auto intro: order_trans [OF max.cobounded2])

lemma fold_max_upper: "a \<in> set xs \<Longrightarrow> (a::nat) \<le> fold max xs b"
proof (induction xs arbitrary: b)
  case Nil
  then show ?case by simp
next
  case (Cons x xs)
  show ?case
  proof (cases "a = x")
    case True
    have "x \<le> max x b" by simp
    also have "\<dots> \<le> fold max xs (max x b)" by (rule fold_max_ge)
    finally show ?thesis using True by simp
  next
    case False
    with Cons show ?thesis by simp
  qed
qed

lemma new_node_fresh: "new_node l \<notin> fst ` set l"
proof
  assume "new_node l \<in> fst ` set l"
  then have "new_node l \<in> set (map fst l)" by simp
  then have "new_node l \<le> fold max (map fst l) 0" by (rule fold_max_upper)
  then show False by (simp add: new_node_def)
qed

lemma find_by_address:
  "distinct (map fst l) \<Longrightarrow> n \<in> set l \<Longrightarrow> find (\<lambda>m. fst m = fst n) l = Some n"
  by (induction l) (auto simp: image_iff)

lemma map_remove1_inj:
  "n \<in> set l \<Longrightarrow> inj_on f (set l) \<Longrightarrow> map f (remove1 n l) = remove1 (f n) (map f l)"
  by (induction l) (auto simp: inj_on_def)

lemma update_fresh_key: "k \<notin> fst ` set al \<Longrightarrow> AList.update k v al = al @ [(k, v)]"
  by (induction al) auto

subsection \<open>What the invariant gives\<close>

lemma paths_index_of: "map fst (index_of l) = map (\<lambda>n. filename (snd n)) l"
  by (simp add: index_of_def)

lemma inv_keys: "cache_inv c \<Longrightarrow> fst ` set (cache c) = set (paths c)"
proof -
  assume "cache_inv c"
  then have "set (cache c) = set (index_of (entries c))" by (simp add: cache_inv_def)
  then have "fst ` set (cache c) = set (map fst (index_of (entries c)))" by simp
  then show ?thesis by (simp add: paths_index_of paths_def)
qed

lemma inv_length: "cache_inv c \<Longrightarrow> length (cache c) = length (entries c)"
proof -
  assume inv: "cache_inv c"
  then have d1: "distinct (cache c)"
    by (simp add: cache_inv_def distinct_map)
  from inv have "distinct (map fst (index_of (entries c)))"
    by (simp add: cache_inv_def paths_index_of paths_def)
  then have d2: "distinct (index_of (entries c))" by (simp add: distinct_map)
  from inv have "set (cache c) = set (index_of (entries c))" by (simp add: cache_inv_def)
  then have "card (set (cache c)) = card (set (index_of (entries c)))" by simp
  with d1 d2 have "length (cache c) = length (index_of (entries c))"
    by (simp add: distinct_card)
  then show ?thesis by (simp add: index_of_def)
qed

lemma inv_lookup:
  "cache_inv c \<Longrightarrow>
     map_of (cache c) p = Some it \<longleftrightarrow>
       (\<exists>n \<in> set (entries c). filename (snd n) = p \<and> it = node (fst n))"
proof -
  assume inv: "cache_inv c"
  then have "map_of (cache c) p = Some it \<longleftrightarrow> (p, it) \<in> set (cache c)"
    by (simp add: cache_inv_def)
  also have "\<dots> \<longleftrightarrow> (p, it) \<in> set (index_of (entries c))"
    using inv by (simp add: cache_inv_def)
  also have "\<dots> \<longleftrightarrow> (\<exists>n \<in> set (entries c). filename (snd n) = p \<and> it = node (fst n))"
    by (auto simp: index_of_def)
  finally show ?thesis .
qed

lemma inv_lookup_None: "cache_inv c \<Longrightarrow> map_of (cache c) p = None \<longleftrightarrow> p \<notin> set (paths c)"
  by (simp add: map_of_eq_None_iff inv_keys)

lemma inv_get_end:
  "cache_inv c \<Longrightarrow>
     StringMap_get (cache c) p past_the_end = past_the_end \<longleftrightarrow> p \<notin> set (paths c)"
proof (cases "map_of (cache c) p")
  case None
  assume "cache_inv c"
  with None show ?thesis by (simp add: StringMap_get_def inv_lookup_None [symmetric])
next
  case (Some it)
  assume inv: "cache_inv c"
  with Some have "it \<noteq> past_the_end" by (auto simp: inv_lookup)
  moreover from inv Some have "p \<in> set (paths c)"
    using inv_lookup_None [of c p] by simp
  ultimately show ?thesis using Some by (simp add: StringMap_get_def)
qed

lemma inv_knows: "cache_inv c \<Longrightarrow> knows c p \<longleftrightarrow> p \<in> set (paths c)"
proof (cases "map_of (cache c) p")
  case None
  assume "cache_inv c"
  with None show ?thesis by (simp add: knows_def StringMap_get_def inv_lookup_None [symmetric])
next
  case (Some it)
  assume inv: "cache_inv c"
  with Some have "it \<noteq> singular" by (auto simp: inv_lookup)
  moreover from inv Some have "p \<in> set (paths c)"
    using inv_lookup_None [of c p] by simp
  ultimately show ?thesis using Some by (simp add: knows_def StringMap_get_def)
qed

lemma new_CachedFileStat_inv: "cache_inv (new_CachedFileStat n)"
  by (simp add: cache_inv_def new_CachedFileStat_def paths_def index_of_def)

subsection \<open>The steps of stat keep the invariant\<close>

lemma evict_back_inv:
  assumes inv: "cache_inv c" and ne: "entries c \<noteq> []"
  shows "\<exists>c1. evict_back c = Some c1 \<and> cache_inv c1 \<and> maxSize c1 = maxSize c \<and>
           entries c1 = butlast (entries c) \<and> paths c1 = butlast (paths c)"
proof -
  define k where "k = filename (snd (last (entries c)))"
  define c1 where
    "c1 = c\<lparr>entries := butlast (entries c), cache := StringMap_remove k (cache c)\<rparr>"
  from ne have ev: "evict_back c = Some c1"
    by (cases "entries c") (simp_all add: evict_back_def c1_def k_def)
  from ne have split: "entries c = butlast (entries c) @ [last (entries c)]" by simp
  from inv have dp: "distinct (map (\<lambda>n. filename (snd n)) (entries c))"
    by (simp add: cache_inv_def paths_def)
  have "distinct (map (\<lambda>n. filename (snd n)) (butlast (entries c) @ [last (entries c)]))"
    using dp split by simp
  then have knot: "k \<notin> (\<lambda>n. filename (snd n)) ` set (butlast (entries c))"
    by (simp add: k_def)
  have "set (index_of (entries c)) =
          insert (k, node (fst (last (entries c)))) (set (index_of (butlast (entries c))))"
    by (subst split) (simp add: index_of_def k_def)
  moreover have "\<forall>x \<in> set (index_of (butlast (entries c))). fst x \<noteq> k"
    using knot by (auto simp: index_of_def)
  ultimately have "{x \<in> set (index_of (entries c)). fst x \<noteq> k} =
      set (index_of (butlast (entries c)))"
    by auto
  moreover have "set (StringMap_remove k (cache c)) = {x \<in> set (cache c). fst x \<noteq> k}"
    by (auto simp: StringMap_remove_def AList.delete_eq)
  moreover from inv have "set (cache c) = set (index_of (entries c))"
    by (simp add: cache_inv_def)
  ultimately have S: "set (cache c1) = set (index_of (entries c1))"
    by (simp add: c1_def)
  from inv have "distinct (map fst (entries c1))"
    by (simp add: c1_def cache_inv_def distinct_butlast map_butlast)
  moreover from inv have "distinct (paths c1)"
    by (simp add: c1_def cache_inv_def paths_def distinct_butlast map_butlast)
  moreover from inv have "distinct (map fst (cache c1))"
    by (simp add: c1_def cache_inv_def StringMap_remove_def distinct_delete)
  moreover from inv have "maxSize c1 \<noteq> 0 \<longrightarrow> length (entries c1) \<le> unat (maxSize c1)"
    by (auto simp: c1_def cache_inv_def)
  ultimately have "cache_inv c1" using S by (simp add: cache_inv_def)
  moreover have "paths c1 = butlast (paths c)"
    by (simp add: c1_def paths_def map_butlast)
  ultimately show ?thesis using ev by (simp add: c1_def)
qed

lemma push_front_inv:
  assumes inv: "cache_inv c" and new: "p \<notin> set (paths c)"
    and room: "maxSize c \<noteq> 0 \<longrightarrow> length (entries c) < unat (maxSize c)"
    and e: "filename e = p"
  shows "cache_inv (c\<lparr>entries := push_front e (entries c),
            cache := StringMap_set p (list_begin (push_front e (entries c))) (cache c)\<rparr>)"
proof -
  define a where "a = new_node (entries c)"
  have l: "push_front e (entries c) = (a, e) # entries c"
    by (simp add: push_front_def a_def)
  have fresh: "a \<notin> fst ` set (entries c)"
    unfolding a_def by (rule new_node_fresh)
  from inv new have "p \<notin> fst ` set (cache c)" by (simp add: inv_keys)
  then have upd: "StringMap_set p (node a) (cache c) = cache c @ [(p, node a)]"
    by (simp add: StringMap_set_def update_fresh_key)
  from new e have pnew: "filename e \<notin> (\<lambda>n. filename (snd n)) ` set (entries c)"
    by (simp add: paths_def)
  from inv have S: "set (cache c) = set (index_of (entries c))"
    and d1: "distinct (map fst (entries c))"
    and d2: "distinct (map (\<lambda>n. filename (snd n)) (entries c))"
    and d3: "distinct (map fst (cache c))"
    by (simp_all add: cache_inv_def paths_def)
  have "distinct (map fst ((a, e) # entries c))"
    using d1 fresh by simp
  moreover have "distinct (map (\<lambda>n. filename (snd n)) ((a, e) # entries c))"
    using d2 pnew by simp
  moreover have "distinct (map fst (cache c @ [(p, node a)]))"
    using d3 \<open>p \<notin> fst ` set (cache c)\<close> by simp
  moreover have "set (cache c @ [(p, node a)]) = set (index_of ((a, e) # entries c))"
    using S e by (simp add: index_of_def)
  moreover have "maxSize c \<noteq> 0 \<longrightarrow> length ((a, e) # entries c) \<le> unat (maxSize c)"
    using room by auto
  ultimately show ?thesis
    by (simp add: l list_begin_def upd cache_inv_def paths_def)
qed

lemma splice_inv:
  assumes inv: "cache_inv c" and n: "n \<in> set (entries c)"
  shows "cache_inv (c\<lparr>entries := n # remove1 n (entries c)\<rparr>)"
    and "paths (c\<lparr>entries := n # remove1 n (entries c)\<rparr>) =
           filename (snd n) # remove1 (filename (snd n)) (paths c)"
proof -
  from inv have d1: "distinct (map fst (entries c))"
    and d2: "distinct (map (\<lambda>n. filename (snd n)) (entries c))"
    by (simp_all add: cache_inv_def paths_def)
  from d1 have d: "distinct (entries c)" by (simp add: distinct_map)
  from d1 have i1: "inj_on fst (set (entries c))" by (simp add: distinct_map)
  from d2 have i2: "inj_on (\<lambda>n. filename (snd n)) (set (entries c))" by (simp add: distinct_map)
  have m1: "map fst (remove1 n (entries c)) = remove1 (fst n) (map fst (entries c))"
    using n i1 by (rule map_remove1_inj)
  have m2: "map (\<lambda>n. filename (snd n)) (remove1 n (entries c)) =
      remove1 (filename (snd n)) (map (\<lambda>n. filename (snd n)) (entries c))"
    using n i2 by (rule map_remove1_inj)
  have s: "set (n # remove1 n (entries c)) = set (entries c)"
    using n d by auto
  then have "set (index_of (n # remove1 n (entries c))) = set (index_of (entries c))"
    unfolding index_of_def set_map by simp
  moreover have "length (n # remove1 n (entries c)) = length (entries c)"
    using n by (simp add: length_remove1) (metis Suc_pred length_pos_if_in_set)
  moreover have "distinct (map fst (n # remove1 n (entries c)))"
    using d1 by (simp add: m1)
  moreover have "distinct (map (\<lambda>n. filename (snd n)) (n # remove1 n (entries c)))"
    using d2 by (simp add: m2)
  ultimately show "cache_inv (c\<lparr>entries := n # remove1 n (entries c)\<rparr>)"
    using inv unfolding cache_inv_def paths_def by simp
  show "paths (c\<lparr>entries := n # remove1 n (entries c)\<rparr>) =
           filename (snd n) # remove1 (filename (snd n)) (paths c)"
    by (simp add: paths_def m2)
qed

lemma head_update_inv:
  assumes inv: "cache_inv c" and l: "entries c = (a, e) # rest"
    and f: "filename e' = filename e"
  shows "cache_inv (c\<lparr>entries := (a, e') # rest\<rparr>)"
    and "paths (c\<lparr>entries := (a, e') # rest\<rparr>) = paths c"
  using inv l f by (simp_all add: cache_inv_def paths_def index_of_def)

lemma stat_lookup_hit:
  assumes inv: "cache_inv c" and n: "n \<in> set (entries c)"
  shows "stat_lookup (filename (snd n)) c = Some (c\<lparr>entries := n # remove1 n (entries c)\<rparr>)"
proof -
  define p where "p = filename (snd n)"
  from inv n have look: "map_of (cache c) p = Some (node (fst n))"
    by (auto simp: inv_lookup p_def)
  then have get: "StringMap_get (cache c) p past_the_end = node (fst n)"
    by (simp add: StringMap_get_def)
  from inv have "distinct (map fst (entries c))" by (simp add: cache_inv_def)
  then have "find (\<lambda>m. fst m = fst n) (entries c) = Some n"
    using n by (rule find_by_address)
  then have sp: "splice_begin (entries c) (node (fst n)) = Some (n # remove1 n (entries c))"
    by (simp add: splice_begin_def)
  have "StringMap_set p (list_begin (n # remove1 n (entries c))) (cache c) = cache c"
    using look by (simp add: StringMap_set_def list_begin_def update_triv)
  then show ?thesis
    unfolding p_def [symmetric] by (simp add: stat_lookup_def get sp)
qed

lemma stat_lookup_miss:
  assumes inv: "cache_inv c" and new: "p \<notin> set (paths c)"
  shows "\<exists>c1 a rest. stat_lookup p c = Some c1 \<and> cache_inv c1 \<and> maxSize c1 = maxSize c \<and>
           entries c1 = (a, new_Entry p) # rest \<and>
           paths c1 = p # (if maxSize c \<noteq> 0 \<and> length (paths c) = unat (maxSize c)
                           then butlast (paths c) else paths c)"
proof -
  from inv new have get: "StringMap_get (cache c) p past_the_end = past_the_end"
    by (simp add: inv_get_end)
  have len: "StringMap_size (cache c) = length (paths c)"
    using inv by (simp add: StringMap_size_def inv_length paths_def)
  define full where "full \<longleftrightarrow> maxSize c \<noteq> 0 \<and> length (paths c) = unat (maxSize c)"
  obtain c0 where c0: "(if full then evict_back c else Some c) = Some c0"
    and inv0: "cache_inv c0" and max0: "maxSize c0 = maxSize c"
    and paths0: "paths c0 = (if full then butlast (paths c) else paths c)"
    and room: "maxSize c0 \<noteq> 0 \<longrightarrow> length (entries c0) < unat (maxSize c0)"
  proof (cases full)
    case True
    then have "entries c \<noteq> []"
      by (auto simp: full_def paths_def unat_eq_0)
    with inv obtain c1 where c1: "evict_back c = Some c1" "cache_inv c1"
      "maxSize c1 = maxSize c" "entries c1 = butlast (entries c)"
      "paths c1 = butlast (paths c)"
      using evict_back_inv by blast
    moreover from \<open>entries c \<noteq> []\<close> have "length (butlast (entries c)) < length (entries c)"
      by simp
    with True c1 have "maxSize c1 \<noteq> 0 \<longrightarrow> length (entries c1) < unat (maxSize c1)"
      by (simp add: full_def paths_def)
    ultimately show ?thesis using True that by simp
  next
    case False
    from inv have "maxSize c \<noteq> 0 \<longrightarrow> length (entries c) \<le> unat (maxSize c)"
      by (simp add: cache_inv_def)
    with False have "maxSize c \<noteq> 0 \<longrightarrow> length (entries c) < unat (maxSize c)"
      by (auto simp: full_def paths_def)
    with False inv that show ?thesis by simp
  qed
  from new paths0 have new0: "p \<notin> set (paths c0)"
    by (auto dest: in_set_butlastD split: if_splits)
  define l where "l = push_front (new_Entry p :: 'a Entry) (entries c0)"
  define c1 where "c1 = c0\<lparr>entries := l, cache := StringMap_set p (list_begin l) (cache c0)\<rparr>"
  have "cache_inv c1"
    unfolding c1_def l_def using inv0 new0 room
    by (rule push_front_inv) (simp add: new_Entry_def)
  moreover have "stat_lookup p c = Some c1"
    using c0 by (simp add: stat_lookup_def get len full_def c1_def l_def Let_def)
  moreover have "entries c1 = (new_node (entries c0), new_Entry p) # entries c0"
    by (simp add: c1_def l_def push_front_def)
  moreover have "paths c1 = p # paths c0"
    by (simp add: c1_def l_def push_front_def paths_def new_Entry_def)
  moreover have "maxSize c1 = maxSize c" by (simp add: c1_def max0)
  ultimately show ?thesis using paths0 by (auto simp: full_def)
qed

lemma stat_lookup_inv:
  assumes inv: "cache_inv c"
  shows "\<exists>c1 a e rest. stat_lookup p c = Some c1 \<and> cache_inv c1 \<and> maxSize c1 = maxSize c \<and>
           paths c1 = lru_query (unat (maxSize c)) p (paths c) \<and>
           entries c1 = (a, e) # rest \<and> filename e = p"
proof (cases "p \<in> set (paths c)")
  case True
  then obtain n where n: "n \<in> set (entries c)" and p: "filename (snd n) = p"
    by (auto simp: paths_def)
  have "stat_lookup p c = Some (c\<lparr>entries := n # remove1 n (entries c)\<rparr>)"
    using stat_lookup_hit [OF inv n] p by simp
  moreover have "cache_inv (c\<lparr>entries := n # remove1 n (entries c)\<rparr>)"
    using inv n by (rule splice_inv)
  moreover have "paths (c\<lparr>entries := n # remove1 n (entries c)\<rparr>) =
      lru_query (unat (maxSize c)) p (paths c)"
    using splice_inv(2) [OF inv n] True p by (simp add: lru_query_def)
  ultimately show ?thesis
    using p by (cases n) auto
next
  case False
  with inv obtain c1 a rest where "stat_lookup p c = Some c1" "cache_inv c1"
    "maxSize c1 = maxSize c" "entries c1 = (a, new_Entry p) # rest"
    "paths c1 = p # (if maxSize c \<noteq> 0 \<and> length (paths c) = unat (maxSize c)
                           then butlast (paths c) else paths c)"
    using stat_lookup_miss by blast
  with False show ?thesis
    by (auto simp: lru_query_def new_Entry_def unat_eq_0)
qed

lemma refresh_filename: "filename (fst (snd (refresh s t e w))) = filename e"
  by (cases "SystemTime_get s")
     (simp_all add: refresh_clock_ok refresh_clock_failed split: stat_reply.splits)

lemma stat_after_lookup:
  assumes "stat_lookup p c = Some c1" and "entries c1 = (a, e) # rest"
  shows "stat s p t c w =
           Some (case fst (refresh s t e w) of
                   Inl x \<Rightarrow> Inl x
                 | Inr ret \<Rightarrow> Inr (ret, info (fst (snd (refresh s t e w)))),
                 c1\<lparr>entries := (a, fst (snd (refresh s t e w))) # rest\<rparr>,
                 snd (snd (refresh s t e w)))"
  using assms by (simp add: stat_def split: prod.splits sum.splits)

lemma stat_inv:
  assumes inv: "cache_inv c"
  shows "\<exists>r c' w'. stat s p t c w = Some (r, c', w') \<and> cache_inv c' \<and>
           maxSize c' = maxSize c \<and> paths c' = lru_query (unat (maxSize c)) p (paths c)"
proof -
  from inv obtain c1 a e rest where c1: "stat_lookup p c = Some c1" "cache_inv c1"
    "maxSize c1 = maxSize c" "paths c1 = lru_query (unat (maxSize c)) p (paths c)"
    "entries c1 = (a, e) # rest"
    using stat_lookup_inv by blast
  define e' where "e' = fst (snd (refresh s t e w))"
  have f: "filename e' = filename e" by (simp add: e'_def refresh_filename)
  have "cache_inv (c1\<lparr>entries := (a, e') # rest\<rparr>)"
    using c1(2,5) f by (rule head_update_inv)
  moreover have "paths (c1\<lparr>entries := (a, e') # rest\<rparr>) = paths c1"
    using c1(2,5) f by (rule head_update_inv)
  ultimately show ?thesis
    using c1 stat_after_lookup [OF c1(1,5), of s t w] by (simp add: e'_def)
qed

lemma stat_all_inv:
  "cache_inv c \<Longrightarrow>
     \<exists>c' w'. stat_all calls c w = Some (c', w') \<and> cache_inv c' \<and> maxSize c' = maxSize c \<and>
       paths c' = fold (lru_query (unat (maxSize c))) (map (\<lambda>q. fst (snd q)) calls) (paths c)"
proof (induction calls arbitrary: c w)
  case Nil
  then show ?case by simp
next
  case (Cons q calls)
  obtain s p t where q: "q = (s, p, t)" by (cases q)
  from Cons.prems obtain r c1 w1 where c1: "stat s p t c w = Some (r, c1, w1)"
    "cache_inv c1" "maxSize c1 = maxSize c"
    "paths c1 = lru_query (unat (maxSize c)) p (paths c)"
    using stat_inv by blast
  from Cons.IH [OF c1(2), of w1] c1 show ?case
    by (auto simp: q)
qed

lemma stat_lookup_miss_exact:
  assumes inv: "cache_inv c" and new: "p \<notin> set (paths c)"
  shows "\<exists>c1 a. stat_lookup p c = Some c1 \<and>
           entries c1 = (a, new_Entry p) #
             (if maxSize c \<noteq> 0 \<and> length (entries c) = unat (maxSize c)
              then butlast (entries c) else entries c)"
proof -
  from inv new have get: "StringMap_get (cache c) p past_the_end = past_the_end"
    by (simp add: inv_get_end)
  have len: "StringMap_size (cache c) = length (entries c)"
    using inv by (simp add: StringMap_size_def inv_length)
  show ?thesis
  proof (cases "maxSize c \<noteq> 0 \<and> length (entries c) = unat (maxSize c)")
    case True
    then have "entries c \<noteq> []" by (auto simp: unat_eq_0)
    then obtain n l where "entries c = n # l" by (cases "entries c") auto
    with True show ?thesis
      by (simp add: stat_lookup_def get len evict_back_def push_front_def Let_def)
  next
    case False
    then show ?thesis
      by (auto simp: stat_lookup_def get len push_front_def Let_def)
  qed
qed

lemma stat_lookup_exact:
  assumes inv: "cache_inv c"
  shows "\<exists>c1 a e rest. stat_lookup p c = Some c1 \<and> cache_inv c1 \<and> maxSize c1 = maxSize c \<and>
           entries c1 = (a, e) # rest \<and> filename e = p \<and>
           paths c1 = lru_query (unat (maxSize c)) p (paths c) \<and>
           (knows c p \<longrightarrow>
              (a, e) \<in> set (entries c) \<and> rest = remove1 (a, e) (entries c) \<and>
              cache c1 = cache c) \<and>
           (\<not> knows c p \<longrightarrow>
              e = new_Entry p \<and>
              rest = (if maxSize c \<noteq> 0 \<and> length (entries c) = unat (maxSize c)
                      then butlast (entries c) else entries c))"
proof -
  from inv obtain c1 a e rest where c1: "stat_lookup p c = Some c1" "cache_inv c1"
    "maxSize c1 = maxSize c" "paths c1 = lru_query (unat (maxSize c)) p (paths c)"
    "entries c1 = (a, e) # rest" "filename e = p"
    using stat_lookup_inv by blast
  have hit: "(a, e) \<in> set (entries c) \<and> rest = remove1 (a, e) (entries c) \<and> cache c1 = cache c"
    if "knows c p"
  proof -
    from that inv have "p \<in> set (paths c)" by (simp add: inv_knows)
    then obtain n where n: "n \<in> set (entries c)" and p: "filename (snd n) = p"
      by (auto simp: paths_def)
    have "stat_lookup p c = Some (c\<lparr>entries := n # remove1 n (entries c)\<rparr>)"
      using stat_lookup_hit [OF inv n] p by simp
    with c1(1,5) have "c1 = c\<lparr>entries := n # remove1 n (entries c)\<rparr>" by simp
    with c1(5) have "n = (a, e)" "rest = remove1 n (entries c)" "cache c1 = cache c"
      by auto
    with n show ?thesis by simp
  qed
  have miss: "e = new_Entry p \<and>
      rest = (if maxSize c \<noteq> 0 \<and> length (entries c) = unat (maxSize c)
              then butlast (entries c) else entries c)"
    if "\<not> knows c p"
  proof -
    from that inv have "p \<notin> set (paths c)" by (simp add: inv_knows)
    with inv obtain c1' a' where "stat_lookup p c = Some c1'"
      "entries c1' = (a', new_Entry p) #
             (if maxSize c \<noteq> 0 \<and> length (entries c) = unat (maxSize c)
              then butlast (entries c) else entries c)"
      using stat_lookup_miss_exact by blast
    with c1(1,5) show ?thesis by simp
  qed
  from c1 hit miss show ?thesis by blast
qed

lemma stat_other_keeps_entry:
  assumes inv: "cache_inv c" and n: "n \<in> set (entries c)" and other: "filename (snd n) \<noteq> q"
    and st: "stat s q t c w = Some (r, c', w')"
  shows "n \<in> set (entries c') \<or> \<not> knows c' (filename (snd n))"
proof -
  from inv obtain c1 a e rest where c1: "stat_lookup q c = Some c1" "cache_inv c1"
    "entries c1 = (a, e) # rest" "filename e = q"
    "paths c1 = lru_query (unat (maxSize c)) q (paths c)"
    "knows c q \<longrightarrow> rest = remove1 (a, e) (entries c)"
    "\<not> knows c q \<longrightarrow>
       rest = (if maxSize c \<noteq> 0 \<and> length (entries c) = unat (maxSize c)
               then butlast (entries c) else entries c)"
    using stat_lookup_exact [OF inv, of q] by blast
  define e' where "e' = fst (snd (refresh s t e w))"
  have f: "filename e' = filename e" by (simp add: e'_def refresh_filename)
  from st have c': "c' = c1\<lparr>entries := (a, e') # rest\<rparr>"
    using stat_after_lookup [OF c1(1,3), of s t w] by (simp add: e'_def)
  have inv': "cache_inv c'" and paths': "paths c' = paths c1"
    unfolding c' using c1(2,3) f by (rule head_update_inv)+
  have ent': "entries c' = (a, e') # rest" by (simp add: c')
  show ?thesis
  proof (cases "n \<in> set rest")
    case True
    then show ?thesis by (simp add: ent')
  next
    case False
    have "filename (snd n) \<notin> set (paths c')"
    proof (cases "knows c q")
      case True
      with c1(6) have "rest = remove1 (a, e) (entries c)" by simp
      moreover from other c1(4) have "n \<noteq> (a, e)" by auto
      ultimately have "n \<in> set rest" using n by simp
      with False show ?thesis by simp
    next
      case notknown: False
      with c1(7) False n have full: "maxSize c \<noteq> 0 \<and> length (entries c) = unat (maxSize c)"
        and rest: "rest = butlast (entries c)"
        by (auto split: if_splits)
      from n have ne: "entries c \<noteq> []" by auto
      then have split: "entries c = butlast (entries c) @ [last (entries c)]" by simp
      with n False rest have last: "n = last (entries c)"
        by (metis Un_iff empty_iff empty_set set_ConsD set_append)
      from inv have "distinct (map (\<lambda>n. filename (snd n)) (entries c))"
        by (simp add: cache_inv_def paths_def)
      then have "distinct (map (\<lambda>n. filename (snd n)) (butlast (entries c) @ [last (entries c)]))"
        using split by simp
      then have "filename (snd n) \<notin> (\<lambda>n. filename (snd n)) ` set (butlast (entries c))"
        using last by simp
      with other f c1(4) show ?thesis
        by (simp add: paths_def ent' rest)
    qed
    with inv' show ?thesis by (simp add: inv_knows)
  qed
qed

lemma stat_all_other_keeps_entry:
  "cache_inv c \<Longrightarrow> n \<in> set (entries c) \<Longrightarrow>
   filename (snd n) \<notin> (\<lambda>q. fst (snd q)) ` set calls \<Longrightarrow>
   stat_all calls c w = Some (c', w') \<Longrightarrow> knows c' (filename (snd n)) \<Longrightarrow>
     cache_inv c' \<and> n \<in> set (entries c')"
proof (induction calls arbitrary: c w)
  case Nil
  then show ?case by simp
next
  case (Cons x calls)
  obtain s q t where x: "x = (s, q, t)" by (cases x)
  from Cons.prems(1) obtain r c1 w1 where c1: "stat s q t c w = Some (r, c1, w1)" "cache_inv c1"
    using stat_inv by blast
  from Cons.prems(4) c1 x have rest: "stat_all calls c1 w1 = Some (c', w')" by simp
  from Cons.prems(3) x have other: "filename (snd n) \<noteq> q"
    and others: "filename (snd n) \<notin> (\<lambda>q. fst (snd q)) ` set calls"
    by auto
  have "n \<in> set (entries c1) \<or> \<not> knows c1 (filename (snd n))"
    using Cons.prems(1,2) other c1(1) by (rule stat_other_keeps_entry)
  then show ?case
  proof
    assume "n \<in> set (entries c1)"
    then show ?thesis
      using Cons.IH [OF c1(2) _ others rest Cons.prems(5)] by simp
  next
    assume gone: "\<not> knows c1 (filename (snd n))"
    from c1(2) obtain c2 w2 where c2: "stat_all calls c1 w1 = Some (c2, w2)" "cache_inv c2"
      "paths c2 = fold (lru_query (unat (maxSize c1))) (map (\<lambda>q. fst (snd q)) calls) (paths c1)"
      using stat_all_inv by blast
    have "set (fold (lru_query C) qs ps) \<subseteq> set ps \<union> set qs" for C qs ps
    proof (induction qs arbitrary: ps)
      case Nil
      then show ?case by simp
    next
      case (Cons q qs)
      have "set (lru_query C q ps) \<subseteq> insert q (set ps)"
        by (auto simp: lru_query_def dest: in_set_butlastD notin_set_remove1)
      with Cons [of "lru_query C q ps"] show ?case by auto
    qed
    then have "set (paths c2) \<subseteq> set (paths c1) \<union> set (map (\<lambda>q. fst (snd q)) calls)"
      unfolding c2(3) .
    moreover from gone c1(2) have "filename (snd n) \<notin> set (paths c1)" by (simp add: inv_knows)
    ultimately have "filename (snd n) \<notin> set (paths c2)" using others by auto
    with c2 rest Cons.prems(5) show ?thesis by (simp add: inv_knows)
  qed
qed

lemmas stat_eval =
  stat_def stat_lookup_def StringMap_get_def StringMap_set_def StringMap_remove_def
  StringMap_size_def evict_back_def push_front_def new_node_def list_begin_def
  splice_begin_def new_Entry_def refresh_def expired_def all_paths_def
  new_CachedFileStat_def knows_def

lemmas inv_eval = cache_inv_def paths_def index_of_def

lemma cache_ab_inv: "cache_inv cache_ab"
  by (auto simp: inv_eval)

lemma cache_ab_reachable:
  "stat_all [(sys_at 1000 (stat_ok 7 0), ''/a'', 0), (sys_at 1001 (stat_ok 8 0), ''/b'', 0)]
     (new_CachedFileStat 2) world0 = Some (cache_ab, \<lparr>errno = 0, stat_log = [''/a'', ''/b'']\<rparr>)"
  by (simp add: stat_eval)

section \<open>Exceptions, failures and fresh entries\<close>

text \<open>
  Claim C1 fails as stated. The cache holds \<^verbatim>\<open>/b\<close> and \<^verbatim>\<open>/a\<close> and is full; the clock fails
  during \<^verbatim>\<open>stat("/c")\<close>. The exception reaches the caller, and the cache is not what it
  was: \<^verbatim>\<open>/a\<close> has been evicted and a never-queried entry for \<^verbatim>\<open>/c\<close> is at the front.
\<close>

theorem stat_exception_mutates_counterexample:
  "stat sys_no_clock ''/c'' 0 cache_ab world0 =
     Some (Inl TimeRetrievalException,
           \<lparr>maxSize = 2, entries = [(3, new_Entry ''/c''), (2, entry_b)],
            cache = [(''/b'', node 2), (''/c'', node 3)]\<rparr>,
           world0)
   \<and> knows cache_ab ''/a''
   \<and> \<not> knows \<lparr>maxSize = 2, entries = [(3, new_Entry ''/c'' :: nat Entry), (2, entry_b)],
                cache = [(''/b'', node 2), (''/c'', node 3)]\<rparr> ''/a''
   \<and> entries cache_ab \<noteq> [(3, new_Entry ''/c''), (2, entry_b)]
   \<and> cache cache_ab \<noteq> [(''/b'', node 2), (''/c'', node 3)]"
  by (simp add: stat_eval)

text \<open>
  Claim C1, amended. From a consistent cache, \<^verbatim>\<open>stat\<close> first does its lookup step, which
  cannot fail and leaves list and map consistent. On a hit the node of the path, with its
  entry as it was, is moved to the front, the other nodes keep their order and the map is
  unchanged; on a miss the last node is evicted if the cache is full and a node with the
  fresh entry of the path is put in front of the others. When the clock fails, the
  exception reaches the caller and the cache and the world are exactly as the lookup step
  left them. When the stat call of a triggered refresh is interrupted, the exception reaches
  the caller, the cache is as the lookup step left it and the world has the stat call in its
  trace. And whatever exception leaves \<^verbatim>\<open>stat\<close>, the cache is the one the lookup step left
  and \<^verbatim>\<open>errno\<close> is unchanged.
\<close>

theorem stat_exception_keeps_lookup:
  assumes inv: "cache_inv c"
  shows "\<exists>c1 a e rest. stat_lookup p c = Some c1 \<and> cache_inv c1 \<and> maxSize c1 = maxSize c \<and>
           entries c1 = (a, e) # rest \<and> filename e = p \<and>
           paths c1 = lru_query (unat (maxSize c)) p (paths c) \<and>
           (knows c p \<longrightarrow>
              (a, e) \<in> set (entries c) \<and> rest = remove1 (a, e) (entries c) \<and>
              cache c1 = cache c) \<and>
           (\<not> knows c p \<longrightarrow>
              e = new_Entry p \<and>
              rest = (if maxSize c \<noteq> 0 \<and> length (entries c) = unat (maxSize c)
                      then butlast (entries c) else entries c)) \<and>
           (SystemTime_get s = Inl x \<longrightarrow> stat s p t c w = Some (Inl x, c1, w)) \<and>
           (SystemTime_get s = Inr now \<and> t \<le> ucast (now - last_time e) \<and>
            syscalls_stat s p = stat_interrupted \<longrightarrow>
              stat s p t c w =
                Some (Inl thread_interrupted, c1, w\<lparr>stat_log := stat_log w @ [p]\<rparr>)) \<and>
           (\<forall>y c' w'. stat s p t c w = Some (Inl y, c', w') \<longrightarrow> c' = c1 \<and> errno w' = errno w)"
proof -
  from inv obtain c1 a e rest where c1: "stat_lookup p c = Some c1" "cache_inv c1"
    "maxSize c1 = maxSize c" "entries c1 = (a, e) # rest" "filename e = p"
    "paths c1 = lru_query (unat (maxSize c)) p (paths c)"
    "knows c p \<longrightarrow>
       (a, e) \<in> set (entries c) \<and> rest = remove1 (a, e) (entries c) \<and> cache c1 = cache c"
    "\<not> knows c p \<longrightarrow>
       e = new_Entry p \<and>
       rest = (if maxSize c \<noteq> 0 \<and> length (entries c) = unat (maxSize c)
               then butlast (entries c) else entries c)"
    using stat_lookup_exact [OF inv, of p] by blast
  have same: "c1\<lparr>entries := (a, e) # rest\<rparr> = c1"
    using c1(4) by simp
  have clk: "SystemTime_get s = Inl x \<longrightarrow> stat s p t c w = Some (Inl x, c1, w)"
    using stat_after_lookup [OF c1(1,4), of s t w] same
    by (simp add: refresh_clock_failed)
  have intr: "SystemTime_get s = Inr now \<and> t \<le> ucast (now - last_time e) \<and>
      syscalls_stat s p = stat_interrupted \<longrightarrow>
        stat s p t c w = Some (Inl thread_interrupted, c1, w\<lparr>stat_log := stat_log w @ [p]\<rparr>)"
    using stat_after_lookup [OF c1(1,4), of s t w] same c1(5)
    by (simp add: refresh_clock_ok)
  have exc: "\<forall>y c' w'. stat s p t c w = Some (Inl y, c', w') \<longrightarrow> c' = c1 \<and> errno w' = errno w"
  proof (intro allI impI)
    fix y c' w'
    assume a: "stat s p t c w = Some (Inl y, c', w')"
    show "c' = c1 \<and> errno w' = errno w"
    proof (cases "SystemTime_get s")
      case (Inl z)
      with a show ?thesis
        using stat_after_lookup [OF c1(1,4), of s t w] same
        by (simp add: refresh_clock_failed)
    next
      case (Inr now')
      with a show ?thesis
        using stat_after_lookup [OF c1(1,4), of s t w] same
        by (auto simp: refresh_clock_ok split: if_splits stat_reply.splits)
    qed
  qed
  from c1 clk intr exc show ?thesis by blast
qed

theorem stat_exception_keeps_lookup_witness:
  "cache_inv cache_ab \<and> knows cache_ab ''/a'' \<and> \<not> knows cache_ab ''/c''
   \<and> stat_lookup ''/a'' cache_ab =
       Some \<lparr>maxSize = 2, entries = [(1, entry_a), (2, entry_b)],
             cache = [(''/a'', node 1), (''/b'', node 2)]\<rparr>
   \<and> stat sys_no_clock ''/a'' 0 cache_ab world0 =
       Some (Inl TimeRetrievalException,
             \<lparr>maxSize = 2, entries = [(1, entry_a), (2, entry_b)],
              cache = [(''/a'', node 1), (''/b'', node 2)]\<rparr>,
             world0)
   \<and> stat_lookup ''/c'' cache_ab =
       Some \<lparr>maxSize = 2, entries = [(3, new_Entry ''/c''), (2, entry_b)],
             cache = [(''/b'', node 2), (''/c'', node 3)]\<rparr>
   \<and> stat sys_no_clock ''/c'' 0 cache_ab world0 =
       Some (Inl TimeRetrievalException,
             \<lparr>maxSize = 2, entries = [(3, new_Entry ''/c''), (2, entry_b)],
              cache = [(''/b'', node 2), (''/c'', node 3)]\<rparr>,
             world0)
   \<and> (0 :: uint) \<le> ucast ((2000 :: time_t) - last_time entry_a)
   \<and> stat (sys_at 2000 stat_interrupted) ''/a'' 0 cache_ab world0 =
       Some (Inl thread_interrupted,
             \<lparr>maxSize = 2, entries = [(1, entry_a), (2, entry_b)],
              cache = [(''/a'', node 1), (''/b'', node 2)]\<rparr>,
             \<lparr>errno = 0, stat_log = [''/a'']\<rparr>)"
  using cache_ab_inv
    stat_exception_keeps_lookup
      [where c = cache_ab and p = "''/a''" and s = sys_no_clock and x = TimeRetrievalException
         and t = 0 and w = world0]
    stat_exception_keeps_lookup
      [where c = cache_ab and p = "''/c''" and s = sys_no_clock and x = TimeRetrievalException
         and t = 0 and w = world0]
    stat_exception_keeps_lookup
      [where c = cache_ab and p = "''/a''" and s = "sys_at 2000 stat_interrupted" and now = 2000
         and t = 0 and w = world0]
  by (simp add: stat_eval)

text \<open>
  Claim C9. A call whose real query fails returns -1 with the error code in \<^verbatim>\<open>errno\<close>; the
  recency order afterwards is the one any query of the path produces, the node of the path
  is first, \<^verbatim>\<open>knows\<close> reports the path, and the entry records -1, the error code and the time
  of the query. Every later call for the path that comes less than its throttle rate after
  the failed query, from any consistent cache that still holds the node and from any world,
  makes no real query, returns the same -1 and the same record, sets \<^verbatim>\<open>errno\<close> to the
  recorded error code, and moves the node to the front. Calls for other paths in between
  leave the node as it is for as long as the path is known.
\<close>

theorem stat_failure_cached:
  assumes inv: "cache_inv c"
    and first: "stat s1 p t1 c w = Some (r1, c1, w1)"
    and clock1: "SystemTime_get s1 = Inr now1"
    and failed: "syscalls_stat s1 p = stat_failed code"
    and queried: "stat_log w1 = stat_log w @ [p]"
  shows "\<exists>a e1 rest. r1 = Inr (- 1, info e1) \<and> errno w1 = code \<and> knows c1 p \<and> cache_inv c1 \<and>
           paths c1 = lru_query (unat (maxSize c)) p (paths c) \<and>
           entries c1 = (a, e1) # rest \<and> filename e1 = p \<and>
           last_result e1 = - 1 \<and> last_errno e1 = code \<and> last_time e1 = now1 \<and>
           (\<forall>c2 w2 s2 now2 t2.
              cache_inv c2 \<and> (a, e1) \<in> set (entries c2) \<and>
              SystemTime_get s2 = Inr now2 \<and> (ucast (now2 - now1) :: uint) < t2 \<longrightarrow>
                stat s2 p t2 c2 w2 =
                  Some (Inr (- 1, info e1),
                        c2\<lparr>entries := (a, e1) # remove1 (a, e1) (entries c2)\<rparr>,
                        w2\<lparr>errno := code\<rparr>)) \<and>
           (\<forall>calls c2 w2.
              p \<notin> (\<lambda>q. fst (snd q)) ` set calls \<and> stat_all calls c1 w1 = Some (c2, w2) \<and>
              knows c2 p \<longrightarrow>
                cache_inv c2 \<and> (a, e1) \<in> set (entries c2))"
proof -
  from inv obtain c0 a e rest where c0: "stat_lookup p c = Some c0" "cache_inv c0"
    "paths c0 = lru_query (unat (maxSize c)) p (paths c)"
    "entries c0 = (a, e) # rest" "filename e = p"
    using stat_lookup_inv by blast
  define e1 where "e1 = e\<lparr>last_result := - 1, last_errno := code, last_time := now1\<rparr>"
  have trig: "t1 \<le> ucast (now1 - last_time e)"
  proof (rule ccontr)
    assume "\<not> t1 \<le> ucast (now1 - last_time e)"
    then have "stat_log (snd (snd (refresh s1 t1 e w))) = stat_log w"
      using clock1 by (simp add: refresh_log)
    with first queried show False
      using stat_after_lookup [OF c0(1,4), of s1 t1 w] by simp
  qed
  then have r: "refresh s1 t1 e w =
      (Inr (- 1), e1, w\<lparr>stat_log := stat_log w @ [p], errno := code\<rparr>)"
    using clock1 failed c0(5) by (simp add: refresh_clock_ok e1_def)
  with first have res: "r1 = Inr (- 1, info e1)" "c1 = c0\<lparr>entries := (a, e1) # rest\<rparr>"
    "w1 = w\<lparr>stat_log := stat_log w @ [p], errno := code\<rparr>"
    using stat_after_lookup [OF c0(1,4), of s1 t1 w] by (simp_all add: e1_def)
  have f1: "filename e1 = filename e" by (simp add: e1_def)
  have inv1: "cache_inv c1"
    unfolding res(2) using c0(2,4) f1 by (rule head_update_inv)
  have paths1: "paths c1 = paths c0"
    unfolding res(2) using c0(2,4) f1 by (rule head_update_inv)
  have ent1: "entries c1 = (a, e1) # rest" by (simp add: res(2))
  have "p \<in> set (paths c1)" by (simp add: paths_def ent1 f1 c0(5))
  then have known: "knows c1 p" using inv1 by (simp add: inv_knows)
  have later: "stat s2 p t2 c2 w2 =
      Some (Inr (- 1, info e1), c2\<lparr>entries := (a, e1) # remove1 (a, e1) (entries c2)\<rparr>,
            w2\<lparr>errno := code\<rparr>)"
    if "cache_inv c2 \<and> (a, e1) \<in> set (entries c2) \<and>
        SystemTime_get s2 = Inr now2 \<and> (ucast (now2 - now1) :: uint) < t2"
    for c2 w2 s2 now2 t2
  proof -
    from that have inv2: "cache_inv c2" and mem: "(a, e1) \<in> set (entries c2)"
      and clock2: "SystemTime_get s2 = Inr now2" and within: "(ucast (now2 - now1) :: uint) < t2"
      by simp_all
    have "stat_lookup (filename (snd (a, e1))) c2 =
        Some (c2\<lparr>entries := (a, e1) # remove1 (a, e1) (entries c2)\<rparr>)"
      using inv2 mem by (rule stat_lookup_hit)
    then have look: "stat_lookup p c2 =
        Some (c2\<lparr>entries := (a, e1) # remove1 (a, e1) (entries c2)\<rparr>)"
      using f1 c0(5) by simp
    have "refresh s2 t2 e1 w2 = (Inr (- 1), e1, w2\<lparr>errno := code\<rparr>)"
      using clock2 within by (simp add: refresh_clock_ok not_le [symmetric] e1_def)
    then show ?thesis
      using stat_after_lookup [OF look, of a e1 "remove1 (a, e1) (entries c2)" s2 t2 w2]
      by simp
  qed
  have between: "cache_inv c2 \<and> (a, e1) \<in> set (entries c2)"
    if "p \<notin> (\<lambda>q. fst (snd q)) ` set calls \<and> stat_all calls c1 w1 = Some (c2, w2) \<and> knows c2 p"
    for calls c2 w2
  proof -
    have "(a, e1) \<in> set (entries c1)" by (simp add: ent1)
    moreover have "filename (snd (a, e1)) = p" by (simp add: f1 c0(5))
    ultimately show ?thesis
      using stat_all_other_keeps_entry [OF inv1, of "(a, e1)" calls w1 c2 w2] that by simp
  qed
  have fields: "filename e1 = p \<and> last_result e1 = - 1 \<and> last_errno e1 = code \<and>
      last_time e1 = now1"
    by (simp add: e1_def c0(5))
  have L: "\<forall>c2 w2 s2 now2 t2.
      cache_inv c2 \<and> (a, e1) \<in> set (entries c2) \<and>
      SystemTime_get s2 = Inr now2 \<and> (ucast (now2 - now1) :: uint) < t2 \<longrightarrow>
        stat s2 p t2 c2 w2 =
          Some (Inr (- 1, info e1), c2\<lparr>entries := (a, e1) # remove1 (a, e1) (entries c2)\<rparr>,
                w2\<lparr>errno := code\<rparr>)"
    using later by blast
  have B: "\<forall>calls c2 w2.
      p \<notin> (\<lambda>q. fst (snd q)) ` set calls \<and> stat_all calls c1 w1 = Some (c2, w2) \<and>
      knows c2 p \<longrightarrow>
        cache_inv c2 \<and> (a, e1) \<in> set (entries c2)"
    using between by blast
  have "errno w1 = code" by (simp add: res(3))
  moreover have "paths c1 = lru_query (unat (maxSize c)) p (paths c)"
    by (simp add: paths1 c0(3))
  ultimately have "r1 = Inr (- 1, info e1) \<and> errno w1 = code \<and> knows c1 p \<and> cache_inv c1 \<and>
      paths c1 = lru_query (unat (maxSize c)) p (paths c) \<and>
      entries c1 = (a, e1) # rest \<and> filename e1 = p \<and>
      last_result e1 = - 1 \<and> last_errno e1 = code \<and> last_time e1 = now1"
    using res(1) known inv1 ent1 fields by (intro conjI) simp_all
  with L B show ?thesis by blast
qed

theorem stat_failure_cached_witness:
  "cache_inv cache_ab
   \<and> stat (sys_at 2000 (stat_failed 2)) ''/a'' 10 cache_ab world0 =
       Some (Inr (- 1, 7),
             \<lparr>maxSize = 2,
              entries = [(1, \<lparr>last_result = - 1, last_errno = 2, last_time = 2000, info = 7,
                              filename = ''/a''\<rparr>), (2, entry_b)],
              cache = [(''/a'', node 1), (''/b'', node 2)]\<rparr>,
             \<lparr>errno = 2, stat_log = [''/a'']\<rparr>)
   \<and> ''/a'' \<notin> (\<lambda>q. fst (snd q)) ` set [(sys_at 2001 (stat_ok 9 0), ''/b'', 0 :: uint)]
   \<and> stat_all [(sys_at 2001 (stat_ok 9 0), ''/b'', 0)]
         \<lparr>maxSize = 2,
          entries = [(1, \<lparr>last_result = - 1, last_errno = 2, last_time = 2000, info = 7,
                          filename = ''/a''\<rparr>), (2, entry_b)],
          cache = [(''/a'', node 1), (''/b'', node 2)]\<rparr>
         \<lparr>errno = 2, stat_log = [''/a'']\<rparr> =
       Some (\<lparr>maxSize = 2,
              entries = [(2, \<lparr>last_result = 0, last_errno = 0, last_time = 2001, info = 9,
                              filename = ''/b''\<rparr>),
                         (1, \<lparr>last_result = - 1, last_errno = 2, last_time = 2000, info = 7,
                              filename = ''/a''\<rparr>)],
              cache = [(''/a'', node 1), (''/b'', node 2)]\<rparr>,
             \<lparr>errno = 0, stat_log = [''/a'', ''/b'']\<rparr>)
   \<and> (ucast ((2005 :: time_t) - 2000) :: uint) < 10
   \<and> stat (sys_at 2005 (stat_ok 6 0)) ''/a'' 10
         \<lparr>maxSize = 2,
          entries = [(2, \<lparr>last_result = 0, last_errno = 0, last_time = 2001, info = 9,
                          filename = ''/b''\<rparr>),
                     (1, \<lparr>last_result = - 1, last_errno = 2, last_time = 2000, info = 7,
                          filename = ''/a''\<rparr>)],
          cache = [(''/a'', node 1), (''/b'', node 2)]\<rparr>
         \<lparr>errno = 0, stat_log = [''/a'', ''/b'']\<rparr> =
       Some (Inr (- 1, 7),
             \<lparr>maxSize = 2,
              entries = [(1, \<lparr>last_result = - 1, last_errno = 2, last_time = 2000, info = 7,
                              filename = ''/a''\<rparr>),
                         (2, \<lparr>last_result = 0, last_errno = 0, last_time = 2001, info = 9,
                              filename = ''/b''\<rparr>)],
              cache = [(''/a'', node 1), (''/b'', node 2)]\<rparr>,
             \<lparr>errno = 2, stat_log = [''/a'', ''/b'']\<rparr>)"
  using cache_ab_inv
    stat_failure_cached
      [where c = cache_ab and p = "''/a''" and ?s1.0 = "sys_at 2000 (stat_failed 2)"
         and ?t1.0 = 10 and w = world0 and ?now1.0 = 2000 and code = 2]
  by (simp add: stat_eval)

text \<open>
  Claim C10. For a path the cache does not know, a call whose throttle rate is above the
  clock value, read as \<^verbatim>\<open>unsigned int\<close>, makes no real query (the trace of stat calls is
  unchanged) and returns the initial state of the new entry: -1, \<^verbatim>\<open>errno\<close> 0 and the
  all-zero record.
\<close>

theorem stat_unseen_path_throttled:
  assumes inv: "cache_inv c" and unseen: "\<not> knows c p"
    and clock: "SystemTime_get s = Inr now" and early: "(ucast now :: uint) < t"
  shows "\<exists>c'. stat s p t c w = Some (Inr (- 1, 0), c', w\<lparr>errno := 0\<rparr>)"
proof -
  from inv unseen have "p \<notin> set (paths c)" by (simp add: inv_knows)
  with inv obtain c1 a rest where c1: "stat_lookup p c = Some c1"
    "entries c1 = (a, new_Entry p) # rest"
    using stat_lookup_miss by blast
  have "refresh s t (new_Entry p :: 'a Entry) w = (Inr (- 1), new_Entry p, w\<lparr>errno := 0\<rparr>)"
    using clock early by (simp add: refresh_clock_ok new_Entry_def not_le [symmetric])
  then show ?thesis
    using stat_after_lookup [OF c1, of s t w] by (simp add: new_Entry_def)
qed

theorem stat_unseen_path_throttled_witness:
  "cache_inv cache_ab \<and> \<not> knows cache_ab ''/c'' \<and> (ucast (5 :: time_t) :: uint) < 10
   \<and> stat (sys_at 5 (stat_ok 9 0)) ''/c'' 10 cache_ab \<lparr>errno = 13, stat_log = []\<rparr> =
       Some (Inr (- 1, 0),
             \<lparr>maxSize = 2, entries = [(3, new_Entry ''/c''), (2, entry_b)],
              cache = [(''/b'', node 2), (''/c'', node 3)]\<rparr>,
             world0)"
  using cache_ab_inv stat_unseen_path_throttled
    [where c = cache_ab and p = "''/c''" and s = "sys_at 5 (stat_ok 9 0)" and now = 5
       and t = 10 and w = "\<lparr>errno = 13, stat_log = []\<rparr>"]
  by (simp add: stat_eval)

section \<open>Recency order and eviction\<close>

subsection \<open>The recency order on file names\<close>

lemma lru_query_miss_take:
  "C \<noteq> 0 \<Longrightarrow> length ps \<le> C \<Longrightarrow> p \<notin> set ps \<Longrightarrow> lru_query C p ps = take C (p # ps)"
  by (cases C) (auto simp: lru_query_def butlast_conv_take)

lemma lru_fold_new_paths:
  "C \<noteq> 0 \<Longrightarrow> length ps \<le> C \<Longrightarrow> distinct qs \<Longrightarrow> set qs \<inter> set ps = {} \<Longrightarrow>
     fold (lru_query C) qs ps = take C (rev qs @ ps)"
proof (induction qs arbitrary: ps)
  case Nil
  then show ?case by simp
next
  case (Cons q qs)
  from Cons.prems have q: "q \<notin> set ps" by auto
  with Cons.prems have step: "lru_query C q ps = take C (q # ps)"
    by (simp add: lru_query_miss_take)
  have "fold (lru_query C) qs (take C (q # ps)) = take C (rev qs @ take C (q # ps))"
  proof (rule Cons.IH)
    show "set qs \<inter> set (take C (q # ps)) = {}"
      using Cons.prems(3,4) by (auto dest!: in_set_takeD)
  qed (use Cons.prems in auto)
  also have "\<dots> = take C (rev qs @ q # ps)"
    by (simp add: min_def)
  finally show ?case by (simp add: step)
qed

lemma take_remove1_mem:
  "p \<noteq> q \<Longrightarrow> p \<in> set (take k ps) \<Longrightarrow> p \<in> set (take k (remove1 q ps))"
proof (induction ps arbitrary: k)
  case Nil
  then show ?case by simp
next
  case (Cons a ps)
  show ?case
  proof (cases k)
    case 0
    with Cons.prems show ?thesis by simp
  next
    case (Suc j)
    have "set (take j ps) \<subseteq> set (take (Suc j) ps)"
      by (rule set_take_subset_set_take) simp
    with Cons Suc show ?thesis by auto
  qed
qed

lemma lru_query_keeps_recent:
  assumes "p \<in> set (take k ps)" and "q \<noteq> p" and "k < C"
  shows "p \<in> set (take (Suc k) (lru_query C q ps))"
proof -
  have "p \<in> set (take k (remove1 q ps))"
    using assms(1,2) by (simp add: take_remove1_mem)
  moreover have "length ps = C \<Longrightarrow> take k (butlast ps) = take k ps"
    using assms(3) by (auto simp: butlast_conv_take min_def)
  ultimately show ?thesis
    using assms(1) by (auto simp: lru_query_def)
qed

lemma lru_fold_keeps_recent:
  "p \<in> set (take k ps) \<Longrightarrow> p \<notin> set qs \<Longrightarrow> k + length qs \<le> C \<Longrightarrow>
     p \<in> set (fold (lru_query C) qs ps)"
proof (induction qs arbitrary: ps k)
  case Nil
  then show ?case by (auto dest: in_set_takeD)
next
  case (Cons q qs)
  from Cons.prems have "p \<in> set (take (Suc k) (lru_query C q ps))"
    by (intro lru_query_keeps_recent) auto
  moreover from Cons.prems have "p \<notin> set qs" "Suc k + length qs \<le> C" by auto
  ultimately have "p \<in> set (fold (lru_query C) qs (lru_query C q ps))"
    by (rule Cons.IH)
  then show ?case by simp
qed

subsection \<open>Sequences of calls\<close>

lemma stat_hit:
  assumes inv: "cache_inv c" and n: "(a, e) \<in> set (entries c)"
  shows "\<exists>r w1. stat s (filename e) t c w =
           Some (r, c\<lparr>entries := (a, fst (snd (refresh s t e w))) # remove1 (a, e) (entries c)\<rparr>,
                 w1)"
proof -
  have "stat_lookup (filename (snd (a, e))) c =
      Some (c\<lparr>entries := (a, e) # remove1 (a, e) (entries c)\<rparr>)"
    using inv n by (rule stat_lookup_hit)
  then have look: "stat_lookup (filename e) c =
      Some (c\<lparr>entries := (a, e) # remove1 (a, e) (entries c)\<rparr>)"
    by simp
  show ?thesis
    using stat_after_lookup [OF look, of a e "remove1 (a, e) (entries c)" s t w] by simp
qed

lemma length_lru_query: "length (lru_query C p ps) \<le> Suc (length ps)"
  by (simp add: lru_query_def length_remove1)

text \<open>
  Claim C5. A query for an unknown path on a full, bounded cache drops the last path of the
  recency order, the least recently used one, and puts the new path at the front (first
  conjunct). Starting from the empty cache of capacity \<open>C \<noteq> 0\<close>, \<open>C + 1\<close> calls for distinct
  paths, whatever the system answers and whatever each call returns or throws, leave a cache
  that does not know the first path and knows every later one (second conjunct).
\<close>

theorem lru_eviction_order:
  "(cache_inv c \<and> maxSize c \<noteq> 0 \<and> length (entries c) = unat (maxSize c) \<and> \<not> knows c p \<longrightarrow>
      (\<exists>r c' w'. stat s p t c w = Some (r, c', w') \<and> paths c' = p # butlast (paths c)))
   \<and> (C \<noteq> 0 \<and> distinct (map (\<lambda>q. fst (snd q)) calls) \<and> length calls = Suc (unat C) \<longrightarrow>
      (\<exists>c' w'. stat_all calls (new_CachedFileStat C) w0 = Some (c', w') \<and>
         \<not> knows c' (fst (snd (hd calls))) \<and>
         (\<forall>q \<in> set (tl calls). knows c' (fst (snd q)))))"
proof (intro conjI impI)
  assume a: "cache_inv c \<and> maxSize c \<noteq> 0 \<and> length (entries c) = unat (maxSize c) \<and> \<not> knows c p"
  then have inv: "cache_inv c" and new: "p \<notin> set (paths c)"
    using inv_knows [of c p] by auto
  from inv obtain r c' w' where "stat s p t c w = Some (r, c', w')"
    "paths c' = lru_query (unat (maxSize c)) p (paths c)"
    using stat_inv by blast
  moreover from a have "unat (maxSize c) \<noteq> 0 \<and> length (paths c) = unat (maxSize c)"
    by (simp add: paths_def unat_eq_0)
  ultimately show "\<exists>r c' w'. stat s p t c w = Some (r, c', w') \<and> paths c' = p # butlast (paths c)"
    using new by (simp add: lru_query_def)
next
  assume a: "C \<noteq> 0 \<and> distinct (map (\<lambda>q. fst (snd q)) calls) \<and> length calls = Suc (unat C)"
  define qs where "qs = map (\<lambda>q. fst (snd q)) calls"
  have inv0: "cache_inv (new_CachedFileStat C :: 'b CachedFileStat)"
    by (rule new_CachedFileStat_inv)
  then obtain c' w' where c': "stat_all calls (new_CachedFileStat C) w0 = Some (c', w')"
    "cache_inv c'"
    "paths c' = fold (lru_query (unat C)) qs (paths (new_CachedFileStat C :: 'b CachedFileStat))"
    using stat_all_inv [of "new_CachedFileStat C :: 'b CachedFileStat" calls w0]
    by (auto simp: qs_def new_CachedFileStat_def)
  have "unat C \<noteq> 0" using a by (simp add: unat_eq_0)
  then have "fold (lru_query (unat C)) qs [] = take (unat C) (rev qs @ [])"
    using a by (intro lru_fold_new_paths) (simp_all add: qs_def)
  then have p: "paths c' = take (unat C) (rev qs)"
    using c'(3) by (simp add: paths_def new_CachedFileStat_def)
  from a obtain q0 rest where calls: "calls = q0 # rest" by (cases calls) auto
  with a have len: "length rest = unat C" by simp
  have "rev qs = rev (map (\<lambda>q. fst (snd q)) rest) @ [fst (snd q0)]"
    by (simp add: qs_def calls)
  with len have "paths c' = rev (map (\<lambda>q. fst (snd q)) rest)"
    by (simp add: p)
  then have "set (paths c') = (\<lambda>q. fst (snd q)) ` set rest" by simp
  moreover from a have "fst (snd q0) \<notin> (\<lambda>q. fst (snd q)) ` set rest"
    by (simp add: calls)
  ultimately show "\<exists>c' w'. stat_all calls (new_CachedFileStat C) w0 = Some (c', w') \<and>
         \<not> knows c' (fst (snd (hd calls))) \<and>
         (\<forall>q \<in> set (tl calls). knows c' (fst (snd q)))"
    using c'(1,2) by (auto simp: inv_knows calls)
qed

theorem lru_eviction_order_witness:
  "cache_inv cache_ab \<and> maxSize cache_ab \<noteq> 0
   \<and> length (entries cache_ab) = unat (maxSize cache_ab) \<and> \<not> knows cache_ab ''/c''
   \<and> stat (sys_at 1002 (stat_ok 9 0)) ''/c'' 0 cache_ab world0 =
       Some (Inr (0, 9),
             \<lparr>maxSize = 2,
              entries = [(3, \<lparr>last_result = 0, last_errno = 0, last_time = 1002, info = 9,
                              filename = ''/c''\<rparr>), (2, entry_b)],
              cache = [(''/b'', node 2), (''/c'', node 3)]\<rparr>,
             \<lparr>errno = 0, stat_log = [''/c'']\<rparr>)
   \<and> (2 :: uint) \<noteq> 0
   \<and> distinct (map (\<lambda>q. fst (snd q))
        [(sys_at 1000 (stat_ok 7 0), ''/a'', 0 :: uint), (sys_at 1001 (stat_ok 8 0), ''/b'', 0),
         (sys_at 1002 (stat_ok 9 0), ''/c'', 0)])
   \<and> length [(sys_at 1000 (stat_ok 7 0), ''/a'', 0 :: uint), (sys_at 1001 (stat_ok 8 0), ''/b'', 0),
         (sys_at 1002 (stat_ok 9 0), ''/c'', 0)] = Suc (unat (2 :: uint))
   \<and> stat_all
        [(sys_at 1000 (stat_ok 7 0), ''/a'', 0), (sys_at 1001 (stat_ok 8 0), ''/b'', 0),
         (sys_at 1002 (stat_ok 9 0), ''/c'', 0)] (new_CachedFileStat 2) world0 =
       Some (\<lparr>maxSize = 2,
              entries = [(3, \<lparr>last_result = 0, last_errno = 0, last_time = 1002, info = 9,
                              filename = ''/c''\<rparr>), (2, entry_b)],
              cache = [(''/b'', node 2), (''/c'', node 3)]\<rparr>,
             \<lparr>errno = 0, stat_log = [''/a'', ''/b'', ''/c'']\<rparr>)
   \<and> \<not> knows \<lparr>maxSize = 2,
              entries = [(3, \<lparr>last_result = 0, last_errno = 0, last_time = 1002, info = 9 :: nat,
                              filename = ''/c''\<rparr>), (2, entry_b)],
              cache = [(''/b'', node 2), (''/c'', node 3)]\<rparr> ''/a''
   \<and> knows \<lparr>maxSize = 2,
              entries = [(3, \<lparr>last_result = 0, last_errno = 0, last_time = 1002, info = 9 :: nat,
                              filename = ''/c''\<rparr>), (2, entry_b)],
              cache = [(''/b'', node 2), (''/c'', node 3)]\<rparr> ''/b''
   \<and> knows \<lparr>maxSize = 2,
              entries = [(3, \<lparr>last_result = 0, last_errno = 0, last_time = 1002, info = 9 :: nat,
                              filename = ''/c''\<rparr>), (2, entry_b)],
              cache = [(''/b'', node 2), (''/c'', node 3)]\<rparr> ''/c''"
  using cache_ab_inv lru_eviction_order
    [where c = cache_ab and p = "''/c''" and s = "sys_at 1002 (stat_ok 9 0)" and t = 0
       and w = world0 and C = 2 and ?w0.0 = world0 and calls =
       "[(sys_at 1000 (stat_ok 7 0), ''/a'', 0), (sys_at 1001 (stat_ok 8 0), ''/b'', 0),
         (sys_at 1002 (stat_ok 9 0), ''/c'', 0)]"]
  by (simp add: stat_eval)

text \<open>
  Claim C6. A query for a path the cache knows moves the node of that path to the front of
  the list: the node keeps its address, its entry is the one \<^verbatim>\<open>refresh\<close> leaves, the other
  nodes keep their order, and the map sends the path to the first node. In a bounded cache
  the path is then still known after any \<open>C - 1\<close> or fewer further queries for other paths.
\<close>

theorem hit_moves_to_front:
  assumes inv: "cache_inv c" and known: "knows c p"
  shows "\<exists>r c1 w1 a e. stat s p t c w = Some (r, c1, w1) \<and>
           (a, e) \<in> set (entries c) \<and> filename e = p \<and>
           entries c1 = (a, fst (snd (refresh s t e w))) # remove1 (a, e) (entries c) \<and>
           paths c1 = p # remove1 p (paths c) \<and>
           map_of (cache c1) p = Some (node a) \<and> list_begin (entries c1) = node a \<and>
           (maxSize c \<noteq> 0 \<and> p \<notin> (\<lambda>q. fst (snd q)) ` set calls \<and>
            length calls \<le> unat (maxSize c) - 1 \<longrightarrow>
              (\<exists>c2 w2. stat_all calls c1 w1 = Some (c2, w2) \<and> knows c2 p))"
proof -
  from inv known have mem: "p \<in> set (paths c)" by (simp add: inv_knows)
  then obtain a e where n: "(a, e) \<in> set (entries c)" and fn: "filename e = p"
    by (auto simp: paths_def)
  define c1 where
    "c1 = c\<lparr>entries := (a, fst (snd (refresh s t e w))) # remove1 (a, e) (entries c)\<rparr>"
  from inv n fn obtain r w1 where st: "stat s p t c w = Some (r, c1, w1)"
    using stat_hit [OF inv n, of s t w] by (auto simp: c1_def)
  from inv obtain r' c1' w1' where c1': "stat s p t c w = Some (r', c1', w1')" "cache_inv c1'"
    "maxSize c1' = maxSize c" "paths c1' = lru_query (unat (maxSize c)) p (paths c)"
    using stat_inv by blast
  with st have inv1: "cache_inv c1" and max1: "maxSize c1 = maxSize c"
    and "paths c1 = lru_query (unat (maxSize c)) p (paths c)"
    by simp_all
  with mem have p1: "paths c1 = p # remove1 p (paths c)"
    by (simp add: lru_query_def)
  have ent: "entries c1 = (a, fst (snd (refresh s t e w))) # remove1 (a, e) (entries c)"
    by (simp add: c1_def)
  have f1: "filename (fst (snd (refresh s t e w))) = p"
    by (simp add: refresh_filename fn)
  have idx: "map_of (cache c1) p = Some (node a)"
    using inv1 ent f1 by (auto simp: inv_lookup)
  have beg: "list_begin (entries c1) = node a"
    by (simp add: ent list_begin_def)
  have later: "\<exists>c2 w2. stat_all calls c1 w1 = Some (c2, w2) \<and> knows c2 p"
    if C: "maxSize c \<noteq> 0" and other: "p \<notin> (\<lambda>q. fst (snd q)) ` set calls"
      and few: "length calls \<le> unat (maxSize c) - 1"
  proof -
    from inv1 obtain c2 w2 where c2: "stat_all calls c1 w1 = Some (c2, w2)" "cache_inv c2"
      "paths c2 = fold (lru_query (unat (maxSize c1))) (map (\<lambda>q. fst (snd q)) calls) (paths c1)"
      using stat_all_inv by blast
    from C have "unat (maxSize c) \<noteq> 0" by (simp add: unat_eq_0)
    with few have "1 + length (map (\<lambda>q. fst (snd q)) calls) \<le> unat (maxSize c)" by simp
    moreover have "p \<in> set (take 1 (paths c1))" by (simp add: p1)
    moreover have "p \<notin> set (map (\<lambda>q. fst (snd q)) calls)" using other by simp
    ultimately have "p \<in> set (fold (lru_query (unat (maxSize c)))
        (map (\<lambda>q. fst (snd q)) calls) (paths c1))"
      by (intro lru_fold_keeps_recent [where k = 1])
    then have "p \<in> set (paths c2)" by (simp add: c2(3) max1)
    with c2 show ?thesis by (auto simp: inv_knows)
  qed
  from st n fn ent p1 idx beg later show ?thesis by blast
qed

theorem hit_moves_to_front_witness:
  "cache_inv cache_ab \<and> knows cache_ab ''/a'' \<and> maxSize cache_ab \<noteq> 0
   \<and> ''/a'' \<notin> (\<lambda>q. fst (snd q)) ` set [(sys_at 2001 (stat_ok 9 0), ''/c'', 0 :: uint)]
   \<and> length [(sys_at 2001 (stat_ok 9 0), ''/c'', 0 :: uint)] \<le> unat (maxSize cache_ab) - 1
   \<and> stat (sys_at 2000 (stat_ok 6 0)) ''/a'' 0 cache_ab world0 =
       Some (Inr (0, 6),
             \<lparr>maxSize = 2,
              entries = [(1, \<lparr>last_result = 0, last_errno = 0, last_time = 2000, info = 6,
                              filename = ''/a''\<rparr>), (2, entry_b)],
              cache = [(''/a'', node 1), (''/b'', node 2)]\<rparr>,
             \<lparr>errno = 0, stat_log = [''/a'']\<rparr>)
   \<and> stat_all [(sys_at 2001 (stat_ok 9 0), ''/c'', 0)]
         \<lparr>maxSize = 2,
          entries = [(1, \<lparr>last_result = 0, last_errno = 0, last_time = 2000, info = 6,
                          filename = ''/a''\<rparr>), (2, entry_b)],
          cache = [(''/a'', node 1), (''/b'', node 2)]\<rparr>
         \<lparr>errno = 0, stat_log = [''/a'']\<rparr> =
       Some (\<lparr>maxSize = 2,
              entries = [(2, \<lparr>last_result = 0, last_errno = 0, last_time = 2001, info = 9,
                              filename = ''/c''\<rparr>),
                         (1, \<lparr>last_result = 0, last_errno = 0, last_time = 2000, info = 6,
                              filename = ''/a''\<rparr>)],
              cache = [(''/a'', node 1), (''/c'', node 2)]\<rparr>,
             \<lparr>errno = 0, stat_log = [''/a'', ''/c'']\<rparr>)
   \<and> knows \<lparr>maxSize = 2,
              entries = [(2, \<lparr>last_result = 0, last_errno = 0, last_time = 2001, info = 9 :: nat,
                              filename = ''/c''\<rparr>),
                         (1, \<lparr>last_result = 0, last_errno = 0, last_time = 2000, info = 6,
                              filename = ''/a''\<rparr>)],
              cache = [(''/a'', node 1), (''/c'', node 2)]\<rparr> ''/a''"
  using cache_ab_inv hit_moves_to_front
    [where c = cache_ab and p = "''/a''" and s = "sys_at 2000 (stat_ok 6 0)" and t = 0
       and w = world0 and calls = "[(sys_at 2001 (stat_ok 9 0), ''/c'', 0)]"]
  by (simp add: stat_eval)

section \<open>Changing the capacity\<close>

lemma evict_loop_inv:
  "cache_inv c \<Longrightarrow> k \<le> length (entries c) \<Longrightarrow>
     \<exists>c'. evict_loop k c = Some c' \<and> cache_inv c' \<and> maxSize c' = maxSize c \<and>
       entries c' = take (length (entries c) - k) (entries c)"
proof (induction k arbitrary: c)
  case 0
  then show ?case by simp
next
  case (Suc k)
  then have ne: "entries c \<noteq> []" by auto
  with Suc.prems obtain c1 where c1: "evict_back c = Some c1" "cache_inv c1"
    "maxSize c1 = maxSize c" "entries c1 = butlast (entries c)"
    using evict_back_inv by blast
  from Suc.prems c1 have "k \<le> length (entries c1)" by simp
  with c1 obtain c' where c': "evict_loop k c1 = Some c'" "cache_inv c'"
    "maxSize c' = maxSize c1" "entries c' = take (length (entries c1) - k) (entries c1)"
    using Suc.IH by blast
  have "take (length (entries c1) - k) (entries c1) =
      take (length (entries c) - Suc k) (entries c)"
    using ne by (simp add: c1(4) take_butlast)
  with c1 c' show ?case by simp
qed

lemma evict_loop_undefined:
  "length (entries c) < k \<Longrightarrow> evict_loop k c = None"
proof (induction k arbitrary: c)
  case 0
  then show ?case by simp
next
  case (Suc k)
  show ?case
  proof (cases "entries c")
    case Nil
    then show ?thesis by (simp add: evict_back_def)
  next
    case (Cons n l)
    define c1 where "c1 = c\<lparr>entries := butlast (entries c),
      cache := StringMap_remove (filename (snd (last (entries c)))) (cache c)\<rparr>"
    from Cons have "evict_back c = Some c1" by (simp add: evict_back_def c1_def)
    moreover from Cons Suc.prems have "length (entries c1) < k" by (simp add: c1_def)
    then have "evict_loop k c1 = None" by (rule Suc.IH)
    ultimately show ?thesis by simp
  qed
qed

lemma toRemove_exact:
  assumes "s < 2 ^ 31" and "unat n \<le> s + 2 ^ 31"
  shows "sint (word_of_nat s - n :: uint) = int s - int (unat n)"
proof -
  have eq: "word_of_nat s - n = (word_of_int (int s - int (unat n)) :: uint)"
    by simp
  have "int s < 2147483648" using assms(1) by simp
  moreover have "int (unat n) \<le> int (s + 2 ^ 31)"
    using assms(2) by (simp only: of_nat_le_iff)
  then have "int (unat n) \<le> int s + 2147483648" by simp
  moreover have "0 \<le> int (unat n)" by simp
  ultimately have "- 2147483648 \<le> int s - int (unat n)" "int s - int (unat n) < 2147483648"
    by linarith+
  then have "signed_take_bit 31 (int s - int (unat n)) = int s - int (unat n)"
    by (simp add: signed_take_bit_int_eq_self)
  moreover have "sint (word_of_int (int s - int (unat n)) :: uint) =
      signed_take_bit 31 (int s - int (unat n))"
    by (simp only: sint_sbintrunc') simp
  ultimately show ?thesis
    by (simp only: eq)
qed

lemma toRemove_overflow:
  assumes "s + 2 ^ 31 < unat n"
  shows "sint (word_of_nat s - n :: uint) = int s + 2 ^ 32 - int (unat n)"
proof -
  have eq: "word_of_nat s - n = (word_of_int (int s + 2 ^ 32 - int (unat n)) :: uint)"
    by simp
  have "unat n < 2 ^ 32" using unsigned_less [of n] by simp
  then have "int (unat n) < int (2 ^ 32)" by (simp only: of_nat_less_iff)
  then have "int (unat n) < 4294967296" by simp
  moreover have "int (s + 2 ^ 31) < int (unat n)"
    using assms by (simp only: of_nat_less_iff)
  then have "int s + 2147483648 < int (unat n)" by simp
  moreover have "0 \<le> int s" by simp
  ultimately have "- 2147483648 \<le> int s + 4294967296 - int (unat n)"
    "int s + 4294967296 - int (unat n) < 2147483648"
    by linarith+
  then have "signed_take_bit 31 (int s + 2 ^ 32 - int (unat n)) = int s + 2 ^ 32 - int (unat n)"
    by (simp add: signed_take_bit_int_eq_self)
  moreover have "sint (word_of_int (int s + 2 ^ 32 - int (unat n)) :: uint) =
      signed_take_bit 31 (int s + 2 ^ 32 - int (unat n))"
    by (simp only: sint_sbintrunc') simp
  ultimately show ?thesis
    by (simp only: eq)
qed

lemma evict_loop_numeral:
  "evict_loop (numeral k) c =
     (case evict_back c of None \<Rightarrow> None | Some c1 \<Rightarrow> evict_loop (pred_numeral k) c1)"
  by (simp add: numeral_eq_Suc)

lemma setMaxSize_unbounded: "setMaxSize 0 c = Some (c\<lparr>maxSize := 0\<rparr>)"
  by (simp add: setMaxSize_def)

lemma setMaxSize_inv:
  assumes inv: "cache_inv c" and n: "n \<noteq> 0"
    and size: "length (entries c) < 2 ^ 31" and small: "unat n \<le> length (entries c) + 2 ^ 31"
  shows "\<exists>c'. setMaxSize n c = Some c' \<and> cache_inv c' \<and> maxSize c' = n \<and>
           entries c' = take (unat n) (entries c)"
proof -
  define s where "s = length (entries c)"
  have sz: "StringMap_size (cache c) = s"
    using inv by (simp add: StringMap_size_def inv_length s_def)
  have "sint (word_of_nat s - n :: uint) = int s - int (unat n)"
    using size small unfolding s_def by (rule toRemove_exact)
  then have k: "nat (sint (word_of_nat s - n :: uint)) = s - unat n"
    by (simp only: nat_diff_distrib' of_nat_0_le_iff nat_int)
  have "s - unat n \<le> length (entries c)" by (simp add: s_def)
  with inv obtain c1 where c1: "evict_loop (s - unat n) c = Some c1" "cache_inv c1"
    "maxSize c1 = maxSize c" "entries c1 = take (length (entries c) - (s - unat n)) (entries c)"
    using evict_loop_inv by blast
  have ent: "entries c1 = take (unat n) (entries c)"
    unfolding c1(4) s_def by (cases "unat n \<le> length (entries c)") simp_all
  then have "length (entries c1) \<le> unat n" by simp
  with c1(2) have "cache_inv (c1\<lparr>maxSize := n\<rparr>)"
    by (simp add: cache_inv_def paths_def)
  moreover have "setMaxSize n c = Some (c1\<lparr>maxSize := n\<rparr>)"
    using n c1(1) by (simp add: setMaxSize_def sz k)
  ultimately show ?thesis using ent by simp
qed

text \<open>
  What \<^verbatim>\<open>setMaxSize\<close> does while the new size is at most \<open>2^31\<close> above the current one is
  \<open>setMaxSize_inv\<close>: the list is cut to its first \<open>n\<close> nodes. Claim C7 says so for every
  \<open>n\<close>, and there the code departs from it. When \<open>n\<close> is more than \<open>2^31\<close> above the
  size, the unsigned difference converts to a positive \<^verbatim>\<open>int\<close> larger than the size: the
  loop evicts every entry and then reads \<^verbatim>\<open>entries.back()\<close> of the empty list.
\<close>

theorem setMaxSize_overflow:
  assumes inv: "cache_inv c" and big: "length (entries c) + 2 ^ 31 < unat n"
  shows "setMaxSize n c = None"
proof -
  define s where "s = length (entries c)"
  have sz: "StringMap_size (cache c) = s"
    using inv by (simp add: StringMap_size_def inv_length s_def)
  have nb: "unat n < 2 ^ 32" using unsigned_less [of n] by simp
  from big have n: "n \<noteq> 0" by auto
  have "sint (word_of_nat s - n :: uint) = int s + 2 ^ 32 - int (unat n)"
    using big unfolding s_def by (rule toRemove_overflow)
  also have "\<dots> = int (s + 2 ^ 32) - int (unat n)" by simp
  finally have "nat (sint (word_of_nat s - n :: uint)) = s + 2 ^ 32 - unat n"
    by (simp only: nat_diff_distrib' of_nat_0_le_iff nat_int)
  moreover have "length (entries c) < s + 2 ^ 32 - unat n"
    using nb by (simp add: s_def)
  ultimately have "evict_loop (nat (sint (word_of_nat s - n :: uint))) c = None"
    by (simp add: evict_loop_undefined)
  then show ?thesis
    using n by (simp add: setMaxSize_def sz)
qed

theorem setMaxSize_overflow_witness:
  "cache_inv cache_ab \<and> length (entries cache_ab) + 2 ^ 31 < unat (4294967295 :: uint)
   \<and> sint (word_of_nat (StringMap_size (cache cache_ab)) - 4294967295 :: uint) = 3
   \<and> setMaxSize 4294967295 cache_ab = None"
  using cache_ab_inv setMaxSize_overflow [where c = cache_ab and n = 4294967295]
  by (simp add: StringMap_size_def)

text \<open>
  Sequences of calls keep list and map consistent, and the size within the bound, as long as
  sizes stay below \<open>2^31\<close> and no new capacity exceeds \<open>2^31\<close>.
\<close>

lemma run_inv:
  "cache_inv c \<Longrightarrow> length (entries c) + length calls < 2 ^ 31 \<Longrightarrow>
   (\<forall>n. SetMaxSize n \<in> set calls \<longrightarrow> unat n \<le> 2 ^ 31) \<Longrightarrow>
     \<exists>c' w'. run calls c w = Some (c', w') \<and> cache_inv c'"
proof (induction calls arbitrary: c w)
  case Nil
  then show ?case by simp
next
  case (Cons x calls)
  show ?case
  proof (cases x)
    case (Stat s p t)
    from Cons.prems(1) obtain r c1 w1 where c1: "stat s p t c w = Some (r, c1, w1)"
      "cache_inv c1" "paths c1 = lru_query (unat (maxSize c)) p (paths c)"
      using stat_inv by blast
    have "length (paths c1) \<le> Suc (length (paths c))"
      unfolding c1(3) by (rule length_lru_query)
    then have "length (entries c1) \<le> Suc (length (entries c))" by (simp add: paths_def)
    with Cons.prems(2) have "length (entries c1) + length calls < 2 ^ 31" by simp
    moreover from Cons.prems(3) have "\<forall>n. SetMaxSize n \<in> set calls \<longrightarrow> unat n \<le> 2 ^ 31"
      by simp
    ultimately obtain c' w' where "run calls c1 w1 = Some (c', w')" "cache_inv c'"
      using Cons.IH [OF c1(2)] by blast
    with c1(1) Stat show ?thesis by simp
  next
    case (SetMaxSize n)
    from Cons.prems(3) SetMaxSize have nb: "unat n \<le> 2 ^ 31" by simp
    obtain c1 where c1: "setMaxSize n c = Some c1" "cache_inv c1"
      "length (entries c1) \<le> length (entries c)"
    proof (cases "n = 0")
      case True
      have "cache_inv (c\<lparr>maxSize := 0\<rparr>)"
        using Cons.prems(1) by (simp add: cache_inv_def paths_def)
      with True that show ?thesis by (simp add: setMaxSize_unbounded)
    next
      case False
      from Cons.prems(2) have "length (entries c) < 2 ^ 31" by simp
      moreover from nb have "unat n \<le> length (entries c) + 2 ^ 31" by simp
      ultimately obtain c1 where "setMaxSize n c = Some c1" "cache_inv c1"
        "entries c1 = take (unat n) (entries c)"
        using setMaxSize_inv [OF Cons.prems(1) False] by blast
      with that show ?thesis by simp
    qed
    from c1(3) Cons.prems(2) have "length (entries c1) + length calls < 2 ^ 31" by simp
    moreover from Cons.prems(3) have "\<forall>n. SetMaxSize n \<in> set calls \<longrightarrow> unat n \<le> 2 ^ 31"
      by simp
    ultimately obtain c' w' where "run calls c1 w = Some (c', w')" "cache_inv c'"
      using Cons.IH [OF c1(2)] by blast
    with c1(1) SetMaxSize show ?thesis by simp
  qed
qed

text \<open>
  Claim C4 says so for every sequence. The sequence \<^verbatim>\<open>stat("/a")\<close>,
  \<^verbatim>\<open>setMaxSize(4294967295)\<close> on a new cache is one after which there is no state to speak
  of: \<open>toRemove\<close> is 2, the first round of the loop evicts \<^verbatim>\<open>/a\<close>, the second pops from
  the empty list.
\<close>

theorem run_setMaxSize_overflow:
  "run [Stat (sys_at 1000 (stat_ok 7 0)) ''/a'' 0, SetMaxSize 4294967295]
     (new_CachedFileStat 0) world0 = None
   \<and> stat (sys_at 1000 (stat_ok 7 0)) ''/a'' 0 (new_CachedFileStat 0) world0 =
       Some (Inr (0, 7), \<lparr>maxSize = 0, entries = [(1, entry_a)], cache = [(''/a'', node 1)]\<rparr>,
             \<lparr>errno = 0, stat_log = [''/a'']\<rparr>)
   \<and> evict_loop 1 \<lparr>maxSize = 0, entries = [(1, entry_a)], cache = [(''/a'', node 1)]\<rparr> =
       Some \<lparr>maxSize = 0, entries = [], cache = []\<rparr>
   \<and> evict_back \<lparr>maxSize = 0, entries = [] :: nat EntryList, cache = []\<rparr> = None"
  by (simp add: stat_eval setMaxSize_def evict_loop_numeral)

end
